theory Spec2Isabelle
  imports Main "HOL-Library.AList" "HOL-Library.Multiset"
begin

section \<open>The dependency sort of \<^verbatim>\<open>packages/dev/scripts/util.mjs\<close>\<close>

text \<open>
  \<^verbatim>\<open>topoSort (dirs)\<close> orders the package directories of the workspace. It reads
  \<^verbatim>\<open>packages/<dir>/package.json\<close> for every directory, derives the edges between the
  directories, walks the graph depth first and returns
  \<^verbatim>\<open>sorted.concat(circularSorted).concat(standAlones)\<close>.

  Package ids are JavaScript strings. The three tables \<^verbatim>\<open>nodes\<close>, \<^verbatim>\<open>visited\<close> and
  \<^verbatim>\<open>circular\<close> are created as \<^verbatim>\<open>{}\<close>: plain objects, whose prototype is
  \<^verbatim>\<open>Object.prototype\<close>. The model keeps the own properties of such an object as an
  association list in the order of their creation, and writes out the two places where a
  plain object is not a dictionary: a read of a key that is no own property finds the
  members of \<^verbatim>\<open>Object.prototype\<close>, and \<^verbatim>\<open>Object.keys\<close> lists the keys that are array
  indices first, in numeric order.
\<close>

subsection \<open>Plain objects\<close>

type_synonym pkg = string

text \<open>
  The names of the properties of \<^verbatim>\<open>Object.prototype\<close>. Each of them is a function, or
  (\<^verbatim>\<open>__proto__\<close>) the prototype object itself: a value that is truthy and has no
  property \<^verbatim>\<open>id\<close> or \<^verbatim>\<open>vertices\<close>.
\<close>

definition inherited :: "pkg \<Rightarrow> bool" where
  "inherited k \<longleftrightarrow>
     k \<in> set [''constructor'', ''__defineGetter__'', ''__defineSetter__'', ''hasOwnProperty'',
              ''__lookupGetter__'', ''__lookupSetter__'', ''isPrototypeOf'',
              ''propertyIsEnumerable'', ''toString'', ''valueOf'', ''__proto__'',
              ''toLocaleString'']"

text \<open>
  \<^verbatim>\<open>table[k]\<close>: the own property when there is one, else the inherited member, else
  \<^verbatim>\<open>undefined\<close>.
\<close>

datatype 'v lookup = Own 'v | Inherited | Undefined

definition get :: "(pkg \<times> 'v) list \<Rightarrow> pkg \<Rightarrow> 'v lookup" where
  "get table k =
     (case map_of table k of
        Some v \<Rightarrow> Own v
      | None \<Rightarrow> if inherited k then Inherited else Undefined)"

text \<open>
  An array index is the canonical decimal numeral of an integer from 0 to
  \<open>2\<^sup>3\<^sup>2 - 2\<close>. \<^verbatim>\<open>Object.keys\<close> and \<^verbatim>\<open>Object.entries\<close> list the own properties whose key is
  an array index first, in ascending numeric order, and then the others in the order of
  their creation.
\<close>

definition is_digit :: "char \<Rightarrow> bool" where
  "is_digit c \<longleftrightarrow> c \<in> set ''0123456789''"

definition index_value :: "string \<Rightarrow> int" where
  "index_value k = foldl (\<lambda>n c. 10 * n + (of_char c - 48)) 0 k"

definition is_array_index :: "string \<Rightarrow> bool" where
  "is_array_index k \<longleftrightarrow>
     k \<noteq> [] \<and> list_all is_digit k \<and> (k = ''0'' \<or> hd k \<noteq> CHR ''0'')
     \<and> index_value k \<le> 4294967294"

definition object_entries :: "(pkg \<times> 'v) list \<Rightarrow> (pkg \<times> 'v) list" where
  "object_entries table =
     sort_key (\<lambda>e. index_value (fst e)) (filter (\<lambda>e. is_array_index (fst e)) table)
     @ filter (\<lambda>e. \<not> is_array_index (fst e)) table"

definition object_keys :: "(pkg \<times> 'v) list \<Rightarrow> pkg list" where
  "object_keys table = map fst (object_entries table)"

subsection \<open>Data\<close>

text \<open>\<^verbatim>\<open>class Node { constructor (id) { this.id = id; this.vertices = []; } }\<close>\<close>

record node =
  node_id :: pkg
  vertices :: "pkg list"

definition new_Node :: "pkg \<Rightarrow> node" where
  "new_Node i = \<lparr>node_id = i, vertices = []\<rparr>"

type_synonym edge = "pkg \<times> pkg"
type_synonym nodes = "(pkg \<times> node) list"

text \<open>
  What can be thrown: \<^verbatim>\<open>fs.readFileSync\<close> or \<^verbatim>\<open>JSON.parse\<close> fails on a manifest;
  \<^verbatim>\<open>Object.keys(deps)\<close> is applied to a manifest without a \<^verbatim>\<open>dependencies\<close> object;
  a property is read from \<^verbatim>\<open>undefined\<close> at the node table (\<^verbatim>\<open>nodes[k]\<close> is
  \<^verbatim>\<open>undefined\<close>, or \<^verbatim>\<open>nodes[k].vertices\<close> is, because \<^verbatim>\<open>nodes[k]\<close> is an inherited
  member and no \<^verbatim>\<open>Node\<close>).
\<close>

datatype error = ManifestError | TypeError_deps | TypeError_node

text \<open>
  The file system as the function sees it: what reading and parsing the manifest of a
  directory gives. \<^verbatim>\<open>Unreadable\<close>: the read or the parse throws. \<^verbatim>\<open>NoDeps\<close>: the
  manifest has no \<^verbatim>\<open>dependencies\<close>. \<^verbatim>\<open>Deps ks\<close> carries
  \<^verbatim>\<open>Object.keys(JSON.parse(json).dependencies)\<close>.
\<close>

datatype manifest = Unreadable | NoDeps | Deps "string list"

type_synonym manifests = "pkg \<Rightarrow> manifest"

text \<open>
  The accumulators that \<^verbatim>\<open>cb\<close> closes over. \<^verbatim>\<open>visited\<close> is never enumerated and only
  ever stores \<^verbatim>\<open>true\<close>: its own properties are a map, and \<^verbatim>\<open>visited[key]\<close> is truthy
  when that map holds \<^verbatim>\<open>true\<close> for the key or the key is an inherited name.
\<close>

record state =
  sorted_acc :: "pkg list"
  visited :: "pkg \<rightharpoonup> bool"
  circular :: "(pkg \<times> node) list"

definition init_state :: state where
  "init_state = \<lparr>sorted_acc = [], visited = Map.empty, circular = []\<rparr>"

subsection \<open>The traversal\<close>

text \<open>
  The body of the \<^verbatim>\<open>if (ancestors.indexOf(i) >= 0)\<close> branch: \<^verbatim>\<open>nodes[id].vertices\<close> is
  read first, which throws when \<^verbatim>\<open>nodes[id]\<close> is no \<^verbatim>\<open>Node\<close>; then \<^verbatim>\<open>nodes[i]\<close> is
  stored under \<^verbatim>\<open>i\<close>. Storing under a key that \<open>circular\<close> has already keeps the place of
  the key. \<open>circular\<close> holds \<^verbatim>\<open>Node\<close>s only: \<open>i\<close> is one of the ancestors, and the ancestors
  are ids of \<^verbatim>\<open>Node\<close>s of the table, so \<^verbatim>\<open>nodes[i]\<close> is a \<^verbatim>\<open>Node\<close> in every call that
  \<open>topoSort\<close> makes. The model gives the error value to the case that \<^verbatim>\<open>nodes[i]\<close> is no
  \<^verbatim>\<open>Node\<close>, and \<open>cb_forEach_ok\<close> below shows that no traversal of a table built from
  edges reaches it.
\<close>

definition mark_circular :: "nodes \<Rightarrow> pkg \<Rightarrow> pkg \<Rightarrow> state \<Rightarrow> error + state" where
  "mark_circular ns i_d i s =
     (case get ns i_d of
        Own n \<Rightarrow>
          (let c1 = (if i \<in> set (vertices n) then AList.update i_d n (circular s)
                     else circular s)
           in case get ns i of
                Own ni \<Rightarrow> Inr (s\<lparr>circular := AList.update i ni c1\<rparr>)
              | Inherited \<Rightarrow> Inl TypeError_node
              | Undefined \<Rightarrow> Inl TypeError_node)
      | Inherited \<Rightarrow> Inl TypeError_node
      | Undefined \<Rightarrow> Inl TypeError_node)"

text \<open>
  \<^verbatim>\<open>cb (key, ancestors)\<close>, and the \<^verbatim>\<open>node.vertices.forEach\<close> inside it as a second
  function over the vertices still to do. \<^verbatim>\<open>ancestors.push(id)\<close> changes the array of
  this call only: every recursive call receives the copy \<^verbatim>\<open>ancestors.map((v) => v)\<close>.

  \<^verbatim>\<open>const node = nodes[key]; const id = node.id;\<close> throws when \<^verbatim>\<open>nodes[key]\<close> is
  \<^verbatim>\<open>undefined\<close>. When \<^verbatim>\<open>key\<close> is an inherited name without a \<^verbatim>\<open>Node\<close>, \<^verbatim>\<open>node\<close> is the
  inherited member, \<^verbatim>\<open>id\<close> is \<^verbatim>\<open>undefined\<close>, and \<^verbatim>\<open>visited[key]\<close>, inherited as well, is
  truthy: the call returns and nothing is recorded for \<^verbatim>\<open>key\<close>.
\<close>

function (domintros)
  cb :: "nodes \<Rightarrow> pkg \<Rightarrow> pkg list \<Rightarrow> state \<Rightarrow> error + state" and
  forEach_vertices :: "nodes \<Rightarrow> pkg \<Rightarrow> pkg list \<Rightarrow> pkg list \<Rightarrow> state \<Rightarrow> error + state"
where
  "cb ns key ancestors s =
     (case get ns key of
        Own n \<Rightarrow>
          if visited s key = Some True \<or> inherited key then Inr s
          else
            (case forEach_vertices ns (node_id n) (ancestors @ [node_id n]) (vertices n)
                    (s\<lparr>visited := (visited s)(key \<mapsto> True)\<rparr>) of
               Inl e \<Rightarrow> Inl e
             | Inr s' \<Rightarrow>
                 (case get (circular s') (node_id n) of
                    Undefined \<Rightarrow> Inr (s'\<lparr>sorted_acc := sorted_acc s' @ [node_id n]\<rparr>)
                  | Own c \<Rightarrow> Inr s'
                  | Inherited \<Rightarrow> Inr s'))
      | Inherited \<Rightarrow> Inr s
      | Undefined \<Rightarrow> Inl TypeError_node)"
| "forEach_vertices ns i_d ancestors [] s = Inr s"
| "forEach_vertices ns i_d ancestors (i # rest) s =
     (case (if i \<in> set ancestors then mark_circular ns i_d i s else Inr s) of
        Inl e \<Rightarrow> Inl e
      | Inr s1 \<Rightarrow>
          (case cb ns i ancestors s1 of
             Inl e \<Rightarrow> Inl e
           | Inr s2 \<Rightarrow> forEach_vertices ns i_d ancestors rest s2))"
  by pat_completeness auto

subsection \<open>Edges, the node table and the result\<close>

text \<open>
  The callback of \<^verbatim>\<open>dirs.map\<close> for one directory. The filter evaluates
  \<^verbatim>\<open>d !== dir && Object.keys(deps).includes(...)\<close>, so a missing \<^verbatim>\<open>dependencies\<close>
  object throws only when some other directory is tested.
\<close>

definition edges_of :: "manifests \<Rightarrow> pkg list \<Rightarrow> pkg \<Rightarrow> error + edge list" where
  "edges_of fs dirs dir =
     (case fs dir of
        Unreadable \<Rightarrow> Inl ManifestError
      | NoDeps \<Rightarrow> if \<exists>d \<in> set dirs. d \<noteq> dir then Inl TypeError_deps else Inr []
      | Deps ks \<Rightarrow>
          Inr (map (\<lambda>d. (dir, d))
                 (filter (\<lambda>d. d \<noteq> dir \<and> (''@substrate/'' @ d) \<in> set ks) dirs)))"

text \<open>
  \<^verbatim>\<open>dirs.map(...).flat()\<close>, with the list of the directories whose manifest was read,
  in order. The first failure ends the loop.
\<close>

fun read_edges :: "manifests \<Rightarrow> pkg list \<Rightarrow> pkg list \<Rightarrow> pkg list \<times> (error + edge list)" where
  "read_edges fs dirs [] = ([], Inr [])"
| "read_edges fs dirs (dir # rest) =
     (case edges_of fs dirs dir of
        Inl e \<Rightarrow> ([dir], Inl e)
      | Inr es \<Rightarrow>
          (case read_edges fs dirs rest of
             (reads, Inl e) \<Rightarrow> (dir # reads, Inl e)
           | (reads, Inr es') \<Rightarrow> (dir # reads, Inr (es @ es'))))"

text \<open>
  The body of \<^verbatim>\<open>edges.forEach\<close>. \<^verbatim>\<open>!nodes[from]\<close> is false for a \<^verbatim>\<open>Node\<close> and for an
  inherited member alike, so an inherited name never gets a \<^verbatim>\<open>Node\<close>. When \<^verbatim>\<open>from\<close> is
  such a name, \<^verbatim>\<open>nodes[from].vertices\<close> is \<^verbatim>\<open>undefined\<close> and \<^verbatim>\<open>.push\<close> throws.
\<close>

definition add_edge :: "nodes \<Rightarrow> edge \<Rightarrow> error + nodes" where
  "add_edge ns v =
     (let from = fst v; to = snd v;
          ns1 = (case get ns from of Undefined \<Rightarrow> ns @ [(from, new_Node from)]
                 | Own n \<Rightarrow> ns | Inherited \<Rightarrow> ns);
          ns2 = (case get ns1 to of Undefined \<Rightarrow> ns1 @ [(to, new_Node to)]
                 | Own n \<Rightarrow> ns1 | Inherited \<Rightarrow> ns1)
      in case get ns2 from of
           Own n \<Rightarrow> Inr (AList.map_entry from (\<lambda>n. n\<lparr>vertices := vertices n @ [to]\<rparr>) ns2)
         | Inherited \<Rightarrow> Inl TypeError_node
         | Undefined \<Rightarrow> Inl TypeError_node)"

text \<open>\<^verbatim>\<open>edges.forEach\<close> from a table; an exception ends the loop.\<close>

fun add_edges :: "nodes \<Rightarrow> edge list \<Rightarrow> error + nodes" where
  "add_edges ns [] = Inr ns"
| "add_edges ns (v # vs) =
     (case add_edge ns v of
        Inl e \<Rightarrow> Inl e
      | Inr ns' \<Rightarrow> add_edges ns' vs)"

definition build_nodes :: "edge list \<Rightarrow> error + nodes" where
  "build_nodes edges = add_edges [] edges"

text \<open>\<^verbatim>\<open>for (const key of keys) { cb(key, []); }\<close>, for \<^verbatim>\<open>keys = Object.keys(nodes)\<close>.\<close>

fun visit_keys :: "nodes \<Rightarrow> pkg list \<Rightarrow> state \<Rightarrow> error + state" where
  "visit_keys ns [] s = Inr s"
| "visit_keys ns (key # keys) s =
     (case cb ns key [] s of
        Inl e \<Rightarrow> Inl e
      | Inr s' \<Rightarrow> visit_keys ns keys s')"

text \<open>
  \<^verbatim>\<open>Object.keys(circular).sort((a, b) => circular[a].vertices.length <
  circular[b].vertices.length ? -1 : 1)\<close>. Each key is kept with its own entry
  \<^verbatim>\<open>circular[a]\<close>, which is what the comparator reads: the entries are taken in the
  order of \<^verbatim>\<open>Object.keys\<close>. The comparator never answers 0.
  The sort of the engine the script runs on (Node, whose \<^verbatim>\<open>Array.prototype.sort\<close> is
  V8's TimSort) places an element by asking whether \<^verbatim>\<open>comparefn(later, earlier) < 0\<close>,
  in its binary insertion as in its merges; \<^verbatim>\<open>array_sort\<close> is that insertion.
\<close>

definition comparefn :: "pkg \<times> node \<Rightarrow> pkg \<times> node \<Rightarrow> int" where
  "comparefn a b = (if length (vertices (snd a)) < length (vertices (snd b)) then - 1 else 1)"

fun insert_sorted :: "('a \<Rightarrow> 'a \<Rightarrow> int) \<Rightarrow> 'a \<Rightarrow> 'a list \<Rightarrow> 'a list" where
  "insert_sorted cmp x [] = [x]"
| "insert_sorted cmp x (y # ys) =
     (if cmp x y < 0 then x # y # ys else y # insert_sorted cmp x ys)"

definition array_sort :: "('a \<Rightarrow> 'a \<Rightarrow> int) \<Rightarrow> 'a list \<Rightarrow> 'a list" where
  "array_sort cmp xs = foldl (\<lambda>acc x. insert_sorted cmp x acc) [] xs"

definition circularSorted :: "(pkg \<times> node) list \<Rightarrow> pkg list" where
  "circularSorted c = map fst (array_sort comparefn (object_entries c))"

definition flattenedEdges :: "edge list \<Rightarrow> pkg list" where
  "flattenedEdges edges = concat (map (\<lambda>v. [fst v, snd v]) edges)"

definition standAlones :: "pkg list \<Rightarrow> edge list \<Rightarrow> pkg list" where
  "standAlones dirs edges = filter (\<lambda>d. d \<notin> set (flattenedEdges edges)) dirs"

text \<open>
  Everything after the edges are built: the three blocks \<^verbatim>\<open>sorted\<close>,
  \<^verbatim>\<open>circularSorted\<close> and \<^verbatim>\<open>standAlones\<close> that the last line concatenates.
\<close>

definition sort_blocks :: "pkg list \<Rightarrow> edge list \<Rightarrow> error + (pkg list \<times> pkg list \<times> pkg list)" where
  "sort_blocks dirs edges =
     (case build_nodes edges of
        Inl e \<Rightarrow> Inl e
      | Inr ns \<Rightarrow>
          (case visit_keys ns (object_keys ns) init_state of
             Inl e \<Rightarrow> Inl e
           | Inr s \<Rightarrow> Inr (sorted_acc s, circularSorted (circular s), standAlones dirs edges)))"

text \<open>
  \<^verbatim>\<open>topoSort\<close>: the manifests read, in order, and the value returned or the error
  thrown.
\<close>

definition topoSort :: "manifests \<Rightarrow> pkg list \<Rightarrow> pkg list \<times> (error + pkg list)" where
  "topoSort fs dirs =
     (if length dirs = 1 then ([], Inr dirs)
      else
        (case read_edges fs dirs dirs of
           (reads, Inl e) \<Rightarrow> (reads, Inl e)
         | (reads, Inr edges) \<Rightarrow>
             (reads,
              case sort_blocks dirs edges of
                Inl e \<Rightarrow> Inl e
              | Inr (sorted_ids, circ, alone) \<Rightarrow> Inr (sorted_ids @ circ @ alone))))"

subsection \<open>The measure of the traversal\<close>

text \<open>The node keys that \<^verbatim>\<open>cb\<close> has not entered yet.\<close>

definition unvisited :: "nodes \<Rightarrow> state \<Rightarrow> pkg set" where
  "unvisited ns s = {k \<in> set (map fst ns). visited s k \<noteq> Some True}"

definition call_measure ::
  "(nodes \<times> pkg \<times> pkg list \<times> state) + (nodes \<times> pkg \<times> pkg list \<times> pkg list \<times> state)
     \<Rightarrow> nat \<times> nat" where
  "call_measure x =
     (case x of
        Inl (ns, key, ancestors, s) \<Rightarrow> (card (unvisited ns s), 0)
      | Inr (ns, i_d, ancestors, vs, s) \<Rightarrow> (card (unvisited ns s), Suc (length vs)))"

subsection \<open>The graph of an edge list\<close>

text \<open>
  The adjacency list that the edges give to a package, in the order of the edges, and the
  number of its outgoing edges.
\<close>

definition adj :: "edge list \<Rightarrow> pkg \<Rightarrow> pkg list" where
  "adj edges k = map snd (filter (\<lambda>v. fst v = k) edges)"

definition out_degree :: "edge list \<Rightarrow> pkg \<Rightarrow> nat" where
  "out_degree edges k = length (adj edges k)"

text \<open>
  The table holds the graph of the edges, except that an endpoint whose name is inherited
  from \<^verbatim>\<open>Object.prototype\<close> has no entry.
\<close>

definition nodes_of :: "nodes \<Rightarrow> edge list \<Rightarrow> bool" where
  "nodes_of ns edges \<longleftrightarrow>
     distinct (map fst ns)
     \<and> dom (map_of ns) = {k \<in> set (flattenedEdges edges). \<not> inherited k}
     \<and> (\<forall>k n. map_of ns k = Some n \<longrightarrow> node_id n = k \<and> vertices n = adj edges k)"

subsection \<open>The state of the traversal, read as sets\<close>

definition visited_set :: "state \<Rightarrow> pkg set" where
  "visited_set s = {k. visited s k = Some True}"

definition circular_keys :: "state \<Rightarrow> pkg set" where
  "circular_keys s = fst ` set (circular s)"

definition children :: "nodes \<Rightarrow> pkg \<Rightarrow> pkg set" where
  "children ns k = (case map_of ns k of None \<Rightarrow> {} | Some n \<Rightarrow> set (vertices n))"

definition edge_rel :: "nodes \<Rightarrow> (pkg \<times> pkg) set" where
  "edge_rel ns = {(a, b). b \<in> children ns a}"

text \<open>
  Every entry is filed under its own id, no entry is filed under an inherited name, and
  every vertex has an entry or is an inherited name.
\<close>

definition wf_nodes :: "nodes \<Rightarrow> bool" where
  "wf_nodes ns \<longleftrightarrow>
     (\<forall>k n. map_of ns k = Some n \<longrightarrow>
        node_id n = k \<and> \<not> inherited k
        \<and> set (vertices n) \<subseteq> dom (map_of ns) \<union> {i. inherited i})"

subsection \<open>Invariants of the traversal\<close>

text \<open>
  Between two steps of a call with the ancestor path \<open>anc\<close>: \<open>sorted\<close> and \<open>circular\<close> are
  disjoint and without repetition, both hold visited node keys only, the ancestors are
  visited and not yet in \<open>sorted\<close>, every visited node that is not an ancestor is in one
  of the two, and \<open>circular\<close> holds entries of the node table.
\<close>

definition inv_base :: "nodes \<Rightarrow> pkg list \<Rightarrow> state \<Rightarrow> bool" where
  "inv_base ns anc s \<longleftrightarrow>
     distinct (sorted_acc s)
     \<and> distinct (map fst (circular s))
     \<and> set (sorted_acc s) \<inter> circular_keys s = {}
     \<and> set (sorted_acc s) \<union> circular_keys s \<subseteq> visited_set s
     \<and> visited_set s \<subseteq> dom (map_of ns)
     \<and> set anc \<subseteq> visited_set s
     \<and> set anc \<inter> set (sorted_acc s) = {}
     \<and> visited_set s \<subseteq> set (sorted_acc s) \<union> circular_keys s \<union> set anc
     \<and> (\<forall>k n. map_of (circular s) k = Some n \<longrightarrow> map_of ns k = Some n)"

text \<open>
  Every visited node that is not an ancestor has all its vertices visited, but for the
  inherited names among them, and where such a node and one of its vertices depend on
  each other, both are in \<open>circular\<close>.
\<close>

definition inv_mutual :: "nodes \<Rightarrow> pkg list \<Rightarrow> state \<Rightarrow> bool" where
  "inv_mutual ns anc s \<longleftrightarrow>
     (\<forall>v \<in> visited_set s - set anc. \<forall>u \<in> children ns v.
        (u \<in> visited_set s \<or> inherited u)
        \<and> (v \<in> children ns u \<longrightarrow> v \<in> circular_keys s \<and> u \<in> circular_keys s))"

text \<open>
  Every vertex of a member of \<open>sorted\<close> stands before it in \<open>sorted\<close>, or is in \<open>circular\<close>,
  or is an inherited name.
\<close>

definition inv_order :: "nodes \<Rightarrow> state \<Rightarrow> bool" where
  "inv_order ns s \<longleftrightarrow>
     (\<forall>l a r. sorted_acc s = l @ a # r \<longrightarrow>
        children ns a \<subseteq> set l \<union> circular_keys s \<union> {i. inherited i})"

text \<open>Every member of \<open>circular\<close> lies on a cycle; every ancestor reaches the current node.\<close>

definition inv_cyclic :: "nodes \<Rightarrow> state \<Rightarrow> bool" where
  "inv_cyclic ns s \<longleftrightarrow> (\<forall>x \<in> circular_keys s. (x, x) \<in> (edge_rel ns)\<^sup>+)"

definition path_to :: "nodes \<Rightarrow> pkg list \<Rightarrow> pkg \<Rightarrow> bool" where
  "path_to ns anc k \<longleftrightarrow> (\<forall>x \<in> set anc. (x, k) \<in> (edge_rel ns)\<^sup>*)"

subsection \<open>Example workspaces\<close>

text \<open>
  Manifests of small workspaces. \<open>fs_pair\<close>: two packages that depend on each other.
  \<open>fs_cycle3\<close>: a cycle of three. \<open>fs_chain\<close>: \<open>a\<close> depending on \<open>b\<close> beside a package \<open>c\<close>
  without edges. \<open>fs_dep_constructor\<close>: \<open>a\<close> depending on a package whose directory is
  named \<^verbatim>\<open>constructor\<close>. \<open>fs_constructor_dep\<close>: the package \<^verbatim>\<open>constructor\<close> depending on
  \<open>a\<close>. \<open>fs_numbered\<close>: the two-cycles \<^verbatim>\<open>2\<close>, \<open>b\<close> and \<^verbatim>\<open>1\<close>, \<open>a\<close>. \<open>fs_index_pair\<close>: the
  two-cycle \<^verbatim>\<open>1\<close>, \<^verbatim>\<open>2\<close>. Dependencies outside the workspace are listed as well.
\<close>

definition fs_pair :: manifests where
  "fs_pair d =
     (if d = ''a'' then Deps [''@substrate/b'']
      else if d = ''b'' then Deps [''@substrate/a'']
      else Unreadable)"

definition fs_cycle3 :: manifests where
  "fs_cycle3 d =
     (if d = ''a'' then Deps [''@substrate/b'']
      else if d = ''b'' then Deps [''@substrate/c'']
      else if d = ''c'' then Deps [''@substrate/a'', ''lodash'']
      else Unreadable)"


definition fs_dep_constructor :: manifests where
  "fs_dep_constructor d =
     (if d = ''a'' then Deps [''@substrate/constructor'', ''yargs'']
      else if d = ''constructor'' then Deps []
      else Unreadable)"

definition fs_constructor_dep :: manifests where
  "fs_constructor_dep d =
     (if d = ''constructor'' then Deps [''@substrate/a'']
      else if d = ''a'' then Deps []
      else Unreadable)"

definition fs_index_pair :: manifests where
  "fs_index_pair d =
     (if d = ''1'' then Deps [''@substrate/2'', ''lodash'']
      else if d = ''2'' then Deps [''@substrate/1'']
      else Unreadable)"

definition fs_numbered :: manifests where
  "fs_numbered d =
     (if d = ''2'' then Deps [''@substrate/b'']
      else if d = ''b'' then Deps [''@substrate/2'']
      else if d = ''1'' then Deps [''@substrate/a'']
      else if d = ''a'' then Deps [''@substrate/1'']
      else Unreadable)"


section \<open>Termination of the traversal\<close>

lemma get_Own: "get table k = Own v \<longleftrightarrow> map_of table k = Some v"
  by (simp add: get_def split: option.splits)

lemma get_Inherited: "get table k = Inherited \<longleftrightarrow> map_of table k = None \<and> inherited k"
  by (simp add: get_def split: option.splits)

lemma get_Undefined: "get table k = Undefined \<longleftrightarrow> map_of table k = None \<and> \<not> inherited k"
  by (simp add: get_def split: option.splits)

lemma mark_circular_visited:
  "mark_circular ns i_d i s = Inr s' \<Longrightarrow> visited s' = visited s"
  by (auto simp: mark_circular_def Let_def split: lookup.splits)

lemma cb_forEach_visited_mono:
  "cb_forEach_vertices_dom (Inl (ns, key, ancestors, s)) \<Longrightarrow>
     cb ns key ancestors s = Inr s' \<Longrightarrow> visited s k = Some True \<Longrightarrow> visited s' k = Some True"
  "cb_forEach_vertices_dom (Inr (ns, i_d, ancestors, vs, s)) \<Longrightarrow>
     forEach_vertices ns i_d ancestors vs s = Inr s' \<Longrightarrow> visited s k = Some True \<Longrightarrow> visited s' k = Some True"
proof (induction ns key ancestors s and ns i_d ancestors vs s arbitrary: s' and s'
        rule: cb_forEach_vertices.pinduct)
  case (1 ns key ancestors s)
  then show ?case
    by (auto simp: cb.psimps split: lookup.splits if_splits sum.splits)
next
  case (2 ns i_d ancestors s)
  then show ?case by (simp add: forEach_vertices.psimps)
next
  case (3 ns i_d ancestors i rest s)
  then show ?case
    by (auto simp: forEach_vertices.psimps split: sum.splits if_splits dest: mark_circular_visited)
qed

lemma unvisited_finite: "finite (unvisited ns s)"
  by (simp add: unvisited_def)

lemma unvisited_mark:
  assumes "map_of ns key = Some n" "visited s key \<noteq> Some True"
  shows "card (unvisited ns (s\<lparr>visited := (visited s)(key \<mapsto> True)\<rparr>)) < card (unvisited ns s)"
proof -
  have "key \<in> set (map fst ns)"
    using assms(1) by (metis map_of_eq_None_iff option.distinct(1) set_map)
  then have "unvisited ns (s\<lparr>visited := (visited s)(key \<mapsto> True)\<rparr>) \<subset> unvisited ns s"
    using assms(2) by (auto simp: unvisited_def)
  then show ?thesis
    by (simp add: psubset_card_mono unvisited_finite)
qed

lemma unvisited_mono:
  assumes "\<And>k. visited s k = Some True \<Longrightarrow> visited s' k = Some True"
  shows "card (unvisited ns s') \<le> card (unvisited ns s)"
proof -
  have "unvisited ns s' \<subseteq> unvisited ns s"
    using assms by (auto simp: unvisited_def)
  then show ?thesis
    by (simp add: card_mono unvisited_finite)
qed

lemma wf_call_measure: "wf (inv_image (less_than <*lex*> less_than) call_measure)"
  by (intro wf_inv_image wf_lex_prod wf_less_than)

lemma cb_forEach_dom_total: "cb_forEach_vertices_dom x"
proof (induction x rule: wf_induct_rule [OF wf_call_measure])
  case (1 x)
  show ?case
  proof (cases x)
    case (Inl a)
    obtain ns key ancestors s where a: "a = (ns, key, ancestors, s)"
      by (cases a)
    show ?thesis
      unfolding Inl a
    proof (rule cb_forEach_vertices.domintros)
      fix n
      assume "get ns key = Own n" "visited s key \<noteq> Some True" "\<not> inherited key"
      then have "map_of ns key = Some n" "visited s key \<noteq> Some True"
        by (simp_all add: get_Own)
      then show "cb_forEach_vertices_dom
                   (Inr (ns, node_id n, ancestors @ [node_id n], vertices n,
                         s\<lparr>visited := (visited s)(key \<mapsto> True)\<rparr>))"
        by (intro 1) (simp add: Inl a call_measure_def unvisited_mark)
    qed
  next
    case (Inr b)
    obtain ns i_d ancestors vs s where b: "b = (ns, i_d, ancestors, vs, s)"
      by (cases b)
    show ?thesis
    proof (cases vs)
      case Nil
      then show ?thesis
        by (simp add: Inr b cb_forEach_vertices.domintros(2))
    next
      case (Cons i rest)
      show ?thesis
        unfolding Inr b Cons
      proof (rule cb_forEach_vertices.domintros(3))
        fix s1
        assume "(if i \<in> set ancestors then mark_circular ns i_d i s else Inr s) = Inr s1"
        then have "visited s1 = visited s"
          by (auto split: if_splits dest: mark_circular_visited)
        then have "unvisited ns s1 = unvisited ns s"
          by (simp add: unvisited_def)
        then show "cb_forEach_vertices_dom (Inl (ns, i, ancestors, s1))"
          by (intro 1) (simp add: Inr b Cons call_measure_def)
      next
        fix s1 s2
        assume m: "(if i \<in> set ancestors then mark_circular ns i_d i s else Inr s) = Inr s1"
          and c: "cb ns i ancestors s1 = Inr s2"
        from m have "visited s1 = visited s"
          by (auto split: if_splits dest: mark_circular_visited)
        then have u: "unvisited ns s1 = unvisited ns s"
          by (simp add: unvisited_def)
        have d: "cb_forEach_vertices_dom (Inl (ns, i, ancestors, s1))"
          by (intro 1) (simp add: Inr b Cons call_measure_def u)
        have "card (unvisited ns s2) \<le> card (unvisited ns s1)"
          by (intro unvisited_mono) (rule cb_forEach_visited_mono(1) [OF d c])
        then have "card (unvisited ns s2) < card (unvisited ns s)
                     \<or> card (unvisited ns s2) = card (unvisited ns s)"
          using u by auto
        then show "cb_forEach_vertices_dom (Inr (ns, i_d, ancestors, rest, s2))"
          by (intro 1) (auto simp add: Inr b Cons call_measure_def)
      qed
    qed
  qed
qed

termination cb
  by (simp add: cb_forEach_dom_total)

section \<open>The short circuits\<close>

text \<open>
  C5. A singleton input \<open>[X]\<close> is returned unchanged, and no manifest is read: the list of
  reads is empty, and the result does not depend on the file system at all (it is the same
  when every read would fail).
\<close>

theorem topoSort_singleton: "topoSort fs [X] = ([], Inr [X])"
  by (simp add: topoSort_def)

text \<open>
  C9. On the empty input the singleton short circuit is skipped, no manifest is read, no
  edge and no node is built, the three blocks are empty, and the empty sequence is
  returned without an error.
\<close>

theorem topoSort_empty:
  "topoSort fs [] = ([], Inr [])
   \<and> length ([] :: pkg list) \<noteq> 1
   \<and> read_edges fs [] [] = ([], Inr [])
   \<and> build_nodes [] = Inr []
   \<and> sort_blocks [] [] = Inr ([], [], [])"
  by (simp add: topoSort_def sort_blocks_def build_nodes_def init_state_def
      circularSorted_def array_sort_def standAlones_def object_keys_def object_entries_def)

section \<open>Determinism\<close>

lemma edges_of_cong: "fs dir = fs' dir \<Longrightarrow> edges_of fs dirs dir = edges_of fs' dirs dir"
  by (simp add: edges_of_def)

lemma read_edges_cong:
  "(\<And>d. d \<in> set ds \<Longrightarrow> fs d = fs' d) \<Longrightarrow> read_edges fs dirs ds = read_edges fs' dirs ds"
proof (induction ds)
  case Nil
  show ?case by simp
next
  case (Cons dir rest)
  have "edges_of fs dirs dir = edges_of fs' dirs dir"
    by (rule edges_of_cong) (simp add: Cons.prems)
  moreover have "read_edges fs dirs rest = read_edges fs' dirs rest"
    by (rule Cons.IH) (simp add: Cons.prems)
  ultimately show ?case by (simp split: sum.splits)
qed

text \<open>
  C8. The outcome of \<open>topoSort\<close> (the manifests read, and the sequence returned or the error
  thrown) is a function of the input sequence and of what the lookups of the input
  directories give: two runs that agree on these give the same outcome. All tables start
  from \<open>init_state\<close> and the empty node table in every run.
\<close>

theorem topoSort_deterministic:
  assumes "\<forall>d \<in> set dirs. fs d = fs' d"
  shows "topoSort fs dirs = topoSort fs' dirs"
proof -
  have "read_edges fs dirs dirs = read_edges fs' dirs dirs"
    by (rule read_edges_cong) (simp add: assms)
  then show ?thesis
    by (simp add: topoSort_def)
qed

theorem topoSort_deterministic_witness:
  "topoSort (\<lambda>d. if d = ''a'' then Deps [''@substrate/b''] else Deps []) [''a'', ''b'']
     = topoSort (\<lambda>d. if d = ''a'' then Deps [''@substrate/b'']
                      else if d = ''b'' then Deps [] else Unreadable) [''a'', ''b'']"
  by (rule topoSort_deterministic) simp

section \<open>The node table\<close>

lemma set_adj: "set (adj edges k) = {b. (k, b) \<in> set edges}"
  by (force simp: adj_def)

lemma adj_append: "adj (es @ [v]) k = adj es k @ (if fst v = k then [snd v] else [])"
  by (simp add: adj_def)

lemma flattenedEdges_append:
  "set (flattenedEdges (es @ [v])) = set (flattenedEdges es) \<union> {fst v, snd v}"
  by (auto simp: flattenedEdges_def)

lemma set_flattenedEdges: "set (flattenedEdges es) = fst ` set es \<union> snd ` set es"
  by (induction es) (auto simp: flattenedEdges_def)

lemma map_of_snoc_fresh:
  "map_of ns k = None \<Longrightarrow> map_of (ns @ [(k, x)]) = (map_of ns)(k \<mapsto> x)"
  by (auto simp: map_add_def fun_eq_iff split: option.splits)

lemma nodes_of_Nil: "nodes_of [] []"
  by (simp add: nodes_of_def flattenedEdges_def)

text \<open>The three steps of \<open>add_edge\<close>, with the lookups read off the own properties.\<close>

lemma add_edge_eq:
  "add_edge ns (a, b) =
     (let ns1 = (if map_of ns a = None \<and> \<not> inherited a then ns @ [(a, new_Node a)] else ns);
          ns2 = (if map_of ns1 b = None \<and> \<not> inherited b then ns1 @ [(b, new_Node b)] else ns1)
      in if map_of ns2 a = None then Inl TypeError_node
         else Inr (AList.map_entry a (\<lambda>n. n\<lparr>vertices := vertices n @ [b]\<rparr>) ns2))"
proof -
  have 1: "(case get t k of Undefined \<Rightarrow> t @ [(k, new_Node k)] | Own n \<Rightarrow> t | Inherited \<Rightarrow> t)
             = (if map_of t k = None \<and> \<not> inherited k then t @ [(k, new_Node k)] else t)"
    for t :: nodes and k
    by (simp add: get_def split: option.splits)
  have 2: "(case get t k of Own n \<Rightarrow> Inr (f t) | Inherited \<Rightarrow> Inl TypeError_node
              | Undefined \<Rightarrow> Inl TypeError_node)
             = (if map_of t k = None then Inl TypeError_node else Inr (f t))"
    for t :: nodes and k and f :: "nodes \<Rightarrow> nodes"
    by (simp add: get_def split: option.splits)
  show ?thesis
    by (simp only: add_edge_def Let_def fst_conv snd_conv 1 2)
qed


lemma nodes_of_add_edge:
  assumes "nodes_of ns es" and "\<not> inherited (fst v)"
  shows "\<exists>ns'. add_edge ns v = Inr ns' \<and> nodes_of ns' (es @ [v])"
proof -
  obtain a b where v: "v = (a, b)" by (cases v)
  have na: "\<not> inherited a" using assms(2) by (simp add: v)
  define ns1 where "ns1 = (if map_of ns a = None \<and> \<not> inherited a then ns @ [(a, new_Node a)] else ns)"
  define ns2 where "ns2 = (if map_of ns1 b = None \<and> \<not> inherited b then ns1 @ [(b, new_Node b)] else ns1)"
  define ns' where "ns' = AList.map_entry a (\<lambda>n. n\<lparr>vertices := vertices n @ [b]\<rparr>) ns2"
  from assms(1) have d: "distinct (map fst ns)"
    and dm: "dom (map_of ns) = {k \<in> set (flattenedEdges es). \<not> inherited k}"
    and en: "\<And>k n. map_of ns k = Some n \<Longrightarrow> node_id n = k \<and> vertices n = adj es k"
    by (auto simp: nodes_of_def)
  have new: "\<And>k. map_of ns k = None \<Longrightarrow> \<not> inherited k \<Longrightarrow> adj es k = []"
  proof -
    fix k assume "map_of ns k = None" "\<not> inherited k"
    then have "k \<notin> dom (map_of ns)" by (simp add: domIff)
    then have "k \<notin> set (flattenedEdges es)" using \<open>\<not> inherited k\<close> by (simp add: dm)
    then show "adj es k = []"
      by (auto simp: adj_def set_flattenedEdges filter_empty_conv intro: rev_image_eqI)
  qed
  have m1: "map_of ns1 = (\<lambda>k. if k = a \<and> map_of ns a = None then Some (new_Node a) else map_of ns k)"
    using na by (auto simp: ns1_def map_of_snoc_fresh fun_eq_iff simp del: map_of_append)
  have d1: "distinct (map fst ns1)"
    using d by (simp add: ns1_def map_of_eq_None_iff)
  have m2: "map_of ns2 = (\<lambda>k. if k = b \<and> map_of ns1 b = None \<and> \<not> inherited b
                              then Some (new_Node b) else map_of ns1 k)"
    by (auto simp: ns2_def map_of_snoc_fresh fun_eq_iff simp del: map_of_append)
  have d2: "distinct (map fst ns2)"
    using d1 by (simp add: ns2_def map_of_eq_None_iff)
  have e2: "\<And>k n. map_of ns2 k = Some n \<Longrightarrow> node_id n = k \<and> vertices n = adj es k"
    using en new na by (auto simp: m1 m2 new_Node_def split: if_splits)
  have dm2: "dom (map_of ns2) = {k \<in> set (flattenedEdges es) \<union> {a, b}. \<not> inherited k}"
    using dm na by (auto simp: m1 m2 dom_def split: if_splits)
  have a2: "map_of ns2 a \<noteq> None"
    using dm2 na by (auto simp: dom_def)
  have ae: "add_edge ns v = Inr ns'"
    using a2 unfolding v add_edge_eq ns'_def ns1_def ns2_def Let_def by simp
  have "distinct (map fst ns')"
    by (simp add: ns'_def AList.distinct_map_entry d2)
  moreover have "dom (map_of ns') = {k \<in> set (flattenedEdges (es @ [v])). \<not> inherited k}"
    using dm2 by (simp add: v ns'_def dom_map_of_conv_image_fst AList.dom_map_entry flattenedEdges_append)
  moreover have "map_of ns' k = Some n \<Longrightarrow> node_id n = k \<and> vertices n = adj (es @ [v]) k" for k n
    using e2 by (auto simp: v ns'_def AList.map_of_map_entry adj_append split: if_splits option.splits)
  ultimately have "nodes_of ns' (es @ [v])"
    by (simp add: nodes_of_def)
  with ae show ?thesis by blast
qed

text \<open>An edge from an inherited name: \<^verbatim>\<open>nodes[from].vertices\<close> is \<^verbatim>\<open>undefined\<close>.\<close>

lemma add_edge_inherited:
  assumes "nodes_of ns es" and "inherited (fst v)"
  shows "add_edge ns v = Inl TypeError_node"
proof -
  obtain a b where v: "v = (a, b)" by (cases v)
  have ia: "inherited a" using assms(2) by (simp add: v)
  have "a \<notin> dom (map_of ns)"
    using assms(1) ia by (simp add: nodes_of_def)
  then have n: "map_of ns a = None" by (simp add: domIff)
  show ?thesis
    unfolding v add_edge_eq Let_def using ia n by (auto simp del: map_of_append simp: map_of_snoc_fresh)
qed

lemma add_edges_nodes_of:
  assumes "nodes_of ns es0"
  shows "if \<exists>v \<in> set es. inherited (fst v) then add_edges ns es = Inl TypeError_node
         else \<exists>ns'. add_edges ns es = Inr ns' \<and> nodes_of ns' (es0 @ es)"
  using assms
proof (induction es arbitrary: ns es0)
  case Nil
  then show ?case by simp
next
  case (Cons v es)
  show ?case
  proof (cases "inherited (fst v)")
    case True
    then show ?thesis
      using add_edge_inherited [OF Cons.prems True] by simp
  next
    case False
    from nodes_of_add_edge [OF Cons.prems False] obtain ns1 where
      a: "add_edge ns v = Inr ns1" and n: "nodes_of ns1 (es0 @ [v])"
      by blast
    from Cons.IH [OF n] show ?thesis
      using a False by (auto split: if_splits)
  qed
qed

lemma build_nodes_cases:
  "if \<exists>v \<in> set es. inherited (fst v) then build_nodes es = Inl TypeError_node
   else \<exists>ns. build_nodes es = Inr ns \<and> nodes_of ns es"
  using add_edges_nodes_of [OF nodes_of_Nil, of es] by (auto simp: build_nodes_def split: if_splits)

lemma build_nodes_Inr:
  assumes "build_nodes es = Inr ns"
  shows "nodes_of ns es" "\<And>v. v \<in> set es \<Longrightarrow> \<not> inherited (fst v)"
  using build_nodes_cases [of es] assms by (auto split: if_splits)

lemma build_nodes_ok:
  assumes "\<And>v. v \<in> set es \<Longrightarrow> \<not> inherited (fst v)"
  shows "\<exists>ns. build_nodes es = Inr ns"
  using build_nodes_cases [of es] assms by (auto split: if_splits)

lemma build_nodes_Inl:
  assumes "build_nodes es = Inl e"
  shows "e = TypeError_node" "\<exists>v \<in> set es. inherited (fst v)"
  using build_nodes_cases [of es] assms by (auto split: if_splits)

lemma nodes_of_wf: "nodes_of ns es \<Longrightarrow> wf_nodes ns"
  unfolding nodes_of_def wf_nodes_def
  by (auto simp: set_adj set_flattenedEdges intro: rev_image_eqI)

section \<open>The depth-first traversal\<close>

subsection \<open>Reading the equations of the traversal backwards\<close>

text \<open>
  A call of \<open>cb\<close> that returns has found the key visited, or has found an inherited member
  in place of a node, or has run the body of the node.
\<close>

lemma cb_Inr_cases:
  assumes "cb ns key ancestors s = Inr s'"
  obtains (seen) n where "map_of ns key = Some n" "visited s key = Some True \<or> inherited key"
      "s' = s"
  | (member) "map_of ns key = None" "inherited key" "s' = s"
  | (body) n s2 where "map_of ns key = Some n" "visited s key \<noteq> Some True" "\<not> inherited key"
      "forEach_vertices ns (node_id n) (ancestors @ [node_id n]) (vertices n)
         (s\<lparr>visited := (visited s)(key \<mapsto> True)\<rparr>) = Inr s2"
      "s' = (if get (circular s2) (node_id n) = Undefined
             then s2\<lparr>sorted_acc := sorted_acc s2 @ [node_id n]\<rparr> else s2)"
proof (cases "get ns key")
  case (Own n)
  then have m: "map_of ns key = Some n" by (simp add: get_Own)
  show ?thesis
  proof (cases "visited s key = Some True \<or> inherited key")
    case True
    then have "s' = s" using assms Own by auto
    with m True show ?thesis by (rule seen)
  next
    case False
    then obtain s2 where
      f: "forEach_vertices ns (node_id n) (ancestors @ [node_id n]) (vertices n)
            (s\<lparr>visited := (visited s)(key \<mapsto> True)\<rparr>) = Inr s2"
      using assms Own by (auto split: sum.splits)
    have "s' = (if get (circular s2) (node_id n) = Undefined
             then s2\<lparr>sorted_acc := sorted_acc s2 @ [node_id n]\<rparr> else s2)"
      using assms Own False f by (auto split: lookup.splits)
    with m False f show ?thesis by (auto intro: body)
  qed
next
  case Inherited
  then have "map_of ns key = None" "inherited key" by (simp_all add: get_Inherited)
  moreover have "s' = s" using assms Inherited by simp
  ultimately show ?thesis by (rule member)
next
  case Undefined
  then show ?thesis using assms by simp
qed

lemma forEach_Cons_Inr:
  assumes "forEach_vertices ns i_d ancestors (i # rest) s = Inr s'"
  obtains s1 s2 where
    "(if i \<in> set ancestors then mark_circular ns i_d i s else Inr s) = Inr s1"
    "cb ns i ancestors s1 = Inr s2"
    "forEach_vertices ns i_d ancestors rest s2 = Inr s'"
  using assms by (auto split: sum.splits)

lemma visited_set_mark [simp]:
  "visited_set (s\<lparr>visited := (visited s)(key \<mapsto> True)\<rparr>) = insert key (visited_set s)"
  by (auto simp: visited_set_def)

lemma visited_set_sorted_upd [simp]:
  "visited_set (s\<lparr>sorted_acc := xs\<rparr>) = visited_set s"
  by (simp add: visited_set_def)

lemma circular_keys_upd [simp]:
  "circular_keys (s\<lparr>visited := m\<rparr>) = circular_keys s"
  "circular_keys (s\<lparr>sorted_acc := xs\<rparr>) = circular_keys s"
  by (simp_all add: circular_keys_def)

lemma circular_keys_map_of: "k \<in> circular_keys s \<longleftrightarrow> map_of (circular s) k \<noteq> None"
  by (simp add: circular_keys_def map_of_eq_None_iff)

lemma children_Some: "map_of ns k = Some n \<Longrightarrow> children ns k = set (vertices n)"
  by (simp add: children_def)

text \<open>What marking does.\<close>

lemma mark_circular_Inr_cases:
  assumes "mark_circular ns i_d i s = Inr s1"
  obtains n ni where "map_of ns i_d = Some n" "map_of ns i = Some ni"
    "s1 = s\<lparr>circular := AList.update i ni
              (if i \<in> set (vertices n) then AList.update i_d n (circular s) else circular s)\<rparr>"
  using assms by (auto simp: mark_circular_def Let_def get_Own split: lookup.splits)

lemma mark_circular_Inr:
  assumes "mark_circular ns i_d i s = Inr s1"
  shows "visited s1 = visited s" "sorted_acc s1 = sorted_acc s"
    "visited_set s1 = visited_set s"
    "circular_keys s1 = circular_keys s \<union> {i} \<union> (if i \<in> children ns i_d then {i_d} else {})"
    "distinct (map fst (circular s)) \<Longrightarrow> distinct (map fst (circular s1))"
    "map_of (circular s1) k = Some n \<Longrightarrow> map_of (circular s) k = Some n \<or> map_of ns k = Some n"
    "map_of ns i \<noteq> None" "map_of ns i_d \<noteq> None"
proof -
  from assms obtain m ni where ms: "map_of ns i_d = Some m" "map_of ns i = Some ni"
    and s1: "s1 = s\<lparr>circular := AList.update i ni
              (if i \<in> set (vertices m) then AList.update i_d m (circular s) else circular s)\<rparr>"
    by (rule mark_circular_Inr_cases)
  show "visited s1 = visited s" "sorted_acc s1 = sorted_acc s" "visited_set s1 = visited_set s"
    by (simp_all add: s1 visited_set_def)
  show "circular_keys s1 = circular_keys s \<union> {i} \<union> (if i \<in> children ns i_d then {i_d} else {})"
    by (simp add: s1 circular_keys_def AList.dom_update children_def ms Un_commute insert_commute)
  show "distinct (map fst (circular s)) \<Longrightarrow> distinct (map fst (circular s1))"
    by (simp add: s1 AList.distinct_update)
  show "map_of (circular s1) k = Some n \<Longrightarrow> map_of (circular s) k = Some n \<or> map_of ns k = Some n"
    using ms by (auto simp: s1 AList.update_conv' split: if_splits)
  show "map_of ns i \<noteq> None" "map_of ns i_d \<noteq> None"
    using ms by simp_all
qed

lemma mark_circular_ok:
  "map_of ns i_d \<noteq> None \<Longrightarrow> map_of ns i \<noteq> None \<Longrightarrow> \<exists>s1. mark_circular ns i_d i s = Inr s1"
  by (auto simp: mark_circular_def Let_def get_def split: option.splits)

subsection \<open>What every call leaves behind\<close>

lemma cb_forEach_frame:
  "cb ns key ancestors s = Inr s' \<Longrightarrow>
     visited_set s \<subseteq> visited_set s' \<and> circular_keys s \<subseteq> circular_keys s'
     \<and> (\<exists>l. sorted_acc s' = sorted_acc s @ l) \<and> (key \<in> visited_set s' \<or> inherited key)
     \<and> (map_of ns key \<noteq> None \<or> inherited key)"
  "forEach_vertices ns i_d ancestors vs s = Inr s' \<Longrightarrow>
     visited_set s \<subseteq> visited_set s' \<and> circular_keys s \<subseteq> circular_keys s'
     \<and> (\<exists>l. sorted_acc s' = sorted_acc s @ l) \<and> set vs \<subseteq> visited_set s' \<union> {i. inherited i}
     \<and> (\<forall>i \<in> set vs \<inter> set ancestors.
           i \<in> circular_keys s' \<and> (i \<in> children ns i_d \<longrightarrow> i_d \<in> circular_keys s'))"
proof (induction ns key ancestors s and ns i_d ancestors vs s arbitrary: s' and s'
        rule: cb_forEach_vertices.induct)
  case (1 ns key ancestors s)
  from "1.prems" show ?case
  proof (cases rule: cb_Inr_cases)
    case (seen n)
    then show ?thesis by (auto simp: visited_set_def)
  next
    case member
    then show ?thesis by simp
  next
    case (body n s2)
    have g: "get ns key = Own n" using body(1) by (simp add: get_Own)
    have nb: "\<not> (visited s key = Some True \<or> inherited key)" using body(2,3) by simp
    from "1.IH" [OF g nb body(4)] have
      "insert key (visited_set s) \<subseteq> visited_set s2" "circular_keys s \<subseteq> circular_keys s2"
      "\<exists>l. sorted_acc s2 = sorted_acc s @ l"
      by simp_all
    then show ?thesis
      using body(1,5) by auto
  qed
next
  case (2 ns i_d ancestors s)
  then show ?case by simp
next
  case (3 ns i_d ancestors i rest s)
  from "3.prems" obtain s1 s2 where
    m: "(if i \<in> set ancestors then mark_circular ns i_d i s else Inr s) = Inr s1"
    and c: "cb ns i ancestors s1 = Inr s2"
    and r: "forEach_vertices ns i_d ancestors rest s2 = Inr s'"
    by (rule forEach_Cons_Inr)
  have m1: "visited_set s1 = visited_set s" "sorted_acc s1 = sorted_acc s"
    "circular_keys s \<subseteq> circular_keys s1"
    "i \<in> set ancestors \<Longrightarrow> i \<in> circular_keys s1 \<and> (i \<in> children ns i_d \<longrightarrow> i_d \<in> circular_keys s1)"
    using m by (auto split: if_splits simp: mark_circular_Inr(2,3,4))
  have c1: "visited_set s1 \<subseteq> visited_set s2" "circular_keys s1 \<subseteq> circular_keys s2"
    "\<exists>l. sorted_acc s2 = sorted_acc s1 @ l" "i \<in> visited_set s2 \<or> inherited i"
    using "3.IH"(1) [OF m c] by simp_all
  have r1: "visited_set s2 \<subseteq> visited_set s'" "circular_keys s2 \<subseteq> circular_keys s'"
    "\<exists>l. sorted_acc s' = sorted_acc s2 @ l" "set rest \<subseteq> visited_set s' \<union> {i. inherited i}"
    "\<forall>i \<in> set rest \<inter> set ancestors.
           i \<in> circular_keys s' \<and> (i \<in> children ns i_d \<longrightarrow> i_d \<in> circular_keys s')"
    using "3.IH"(2) [OF m c r] by simp_all
  have "visited_set s \<subseteq> visited_set s'"
    using m1(1) c1(1) r1(1) by auto
  moreover have "circular_keys s \<subseteq> circular_keys s'"
    using m1(3) c1(2) r1(2) by auto
  moreover have "\<exists>l. sorted_acc s' = sorted_acc s @ l"
    using m1(2) c1(3) r1(3) by auto
  moreover have "set (i # rest) \<subseteq> visited_set s' \<union> {i. inherited i}"
    using c1(4) r1(1,4) by auto
  moreover have "\<forall>j \<in> set (i # rest) \<inter> set ancestors.
           j \<in> circular_keys s' \<and> (j \<in> children ns i_d \<longrightarrow> i_d \<in> circular_keys s')"
    using m1(4) c1(2) r1(2,5) by auto
  ultimately show ?case by blast
qed

subsection \<open>The traversal of a well-formed table does not fail\<close>

text \<open>
  On a well-formed table, a call of \<open>cb\<close> on a key of the table or on an inherited name,
  with ancestors that are keys of the table, returns a state: \<^verbatim>\<open>nodes[key]\<close> is never
  \<^verbatim>\<open>undefined\<close>, and the lookups of the marking find nodes.
\<close>

lemma cb_forEach_ok:
  "wf_nodes ns \<Longrightarrow> map_of ns key \<noteq> None \<or> inherited key \<Longrightarrow>
     set ancestors \<subseteq> dom (map_of ns) \<Longrightarrow> \<exists>s'. cb ns key ancestors s = Inr s'"
  "wf_nodes ns \<Longrightarrow> map_of ns i_d \<noteq> None \<Longrightarrow>
     set vs \<subseteq> dom (map_of ns) \<union> {i. inherited i} \<Longrightarrow>
     set ancestors \<subseteq> dom (map_of ns) \<Longrightarrow>
     \<exists>s'. forEach_vertices ns i_d ancestors vs s = Inr s'"
proof (induction ns key ancestors s and ns i_d ancestors vs s
        rule: cb_forEach_vertices.induct)
  case (1 ns key ancestors s)
  show ?case
  proof (cases "map_of ns key")
    case None
    then have "get ns key = Inherited"
      using "1.prems"(2) by (simp add: get_Inherited)
    then show ?thesis by simp
  next
    case (Some n)
    then have g: "get ns key = Own n" by (simp add: get_Own)
    show ?thesis
    proof (cases "visited s key = Some True \<or> inherited key")
      case True
      then show ?thesis using g by auto
    next
      case False
      have k: "node_id n = key" and v: "set (vertices n) \<subseteq> dom (map_of ns) \<union> {i. inherited i}"
        using "1.prems"(1) Some by (auto simp: wf_nodes_def)
      have a: "set (ancestors @ [node_id n]) \<subseteq> dom (map_of ns)"
        using "1.prems"(3) Some k by auto
      have "map_of ns (node_id n) \<noteq> None" using Some k by simp
      from "1.IH" [OF g False "1.prems"(1) this v a]
      obtain s2 where "forEach_vertices ns (node_id n) (ancestors @ [node_id n]) (vertices n)
                  (s\<lparr>visited := (visited s)(key \<mapsto> True)\<rparr>) = Inr s2" ..
      then show ?thesis
        using g False by (auto split: lookup.splits)
    qed
  qed
next
  case (2 ns i_d ancestors s)
  show ?case by simp
next
  case (3 ns i_d ancestors i rest s)
  have "i \<in> set ancestors \<Longrightarrow> map_of ns i \<noteq> None"
    using "3.prems"(4) by (auto simp: domIff)
  then have "\<exists>s1. (if i \<in> set ancestors then mark_circular ns i_d i s else Inr s) = Inr s1"
    using "3.prems"(2) by (simp add: mark_circular_ok)
  then obtain s1 where
    m: "(if i \<in> set ancestors then mark_circular ns i_d i s else Inr s) = Inr s1" ..
  have i: "map_of ns i \<noteq> None \<or> inherited i"
    using "3.prems"(3) by (auto simp: domIff)
  from "3.IH"(1) [OF m "3.prems"(1) i "3.prems"(4)]
  obtain s2 where c: "cb ns i ancestors s1 = Inr s2" ..
  have r: "set rest \<subseteq> dom (map_of ns) \<union> {i. inherited i}"
    using "3.prems"(3) by auto
  from "3.IH"(2) [OF m c "3.prems"(1,2) r "3.prems"(4)]
  obtain s' where "forEach_vertices ns i_d ancestors rest s2 = Inr s'" ..
  then show ?case
    using m c by simp
qed

lemma visit_keys_ok:
  "wf_nodes ns \<Longrightarrow> set ks \<subseteq> dom (map_of ns) \<union> {i. inherited i} \<Longrightarrow>
     \<exists>s'. visit_keys ns ks s = Inr s'"
proof (induction ks arbitrary: s)
  case Nil
  show ?case by simp
next
  case (Cons k ks)
  have "map_of ns k \<noteq> None \<or> inherited k"
    using Cons.prems(2) by (auto simp: domIff)
  from cb_forEach_ok(1) [OF Cons.prems(1) this, of "[]" s]
  obtain s1 where "cb ns k [] s = Inr s1" by auto
  moreover from Cons.IH [of s1] Cons.prems
  obtain s' where "visit_keys ns ks s1 = Inr s'" by auto
  ultimately show ?case by simp
qed

subsection \<open>The invariant\<close>

lemma inv_base_enter:
  assumes "inv_base ns anc s" "map_of ns key = Some n" "visited s key \<noteq> Some True"
  shows "inv_base ns (anc @ [key]) (s\<lparr>visited := (visited s)(key \<mapsto> True)\<rparr>)"
proof -
  have "key \<notin> visited_set s" using assms(3) by (simp add: visited_set_def)
  moreover have "key \<in> dom (map_of ns)" using assms(2) by (simp add: domIff)
  ultimately show ?thesis
    using assms(1) unfolding inv_base_def by auto
qed

lemma inv_base_mark:
  assumes "inv_base ns anc s" "mark_circular ns i_d i s = Inr s1" "i_d \<in> set anc" "i \<in> set anc"
  shows "inv_base ns anc s1"
proof -
  note m = mark_circular_Inr [OF assms(2)]
  have "circular_keys s1 \<subseteq> circular_keys s \<union> set anc"
    using assms(3,4) by (auto simp: m(4) split: if_splits)
  moreover have "circular_keys s \<subseteq> circular_keys s1"
    by (auto simp: m(4))
  moreover have "distinct (map fst (circular s1))"
    using assms(1) m(5) by (simp add: inv_base_def)
  moreover have "\<forall>k n. map_of (circular s1) k = Some n \<longrightarrow> map_of ns k = Some n"
    using assms(1) m(6) unfolding inv_base_def by blast
  ultimately show ?thesis
    using assms(1) unfolding inv_base_def m(2,3) by blast
qed

lemma inv_base_exit:
  assumes "inv_base ns (anc @ [key]) s2" "key \<notin> set anc" "\<not> inherited key"
  shows "inv_base ns anc
           (if get (circular s2) key = Undefined then s2\<lparr>sorted_acc := sorted_acc s2 @ [key]\<rparr> else s2)"
proof (cases "map_of (circular s2) key = None")
  case True
  then have "key \<notin> circular_keys s2" by (simp add: circular_keys_map_of)
  moreover have "get (circular s2) key = Undefined"
    using True assms(3) by (simp add: get_Undefined)
  ultimately show ?thesis
    using assms unfolding inv_base_def by auto
next
  case False
  then have "key \<in> circular_keys s2" by (simp add: circular_keys_map_of)
  moreover have "get (circular s2) key \<noteq> Undefined"
    using False by (simp add: get_Undefined)
  ultimately show ?thesis
    using assms unfolding inv_base_def by auto
qed

lemma cb_forEach_inv_base:
  "cb ns key ancestors s = Inr s' \<Longrightarrow> wf_nodes ns \<Longrightarrow> inv_base ns ancestors s \<Longrightarrow>
     inv_base ns ancestors s'"
  "forEach_vertices ns i_d ancestors vs s = Inr s' \<Longrightarrow> wf_nodes ns \<Longrightarrow>
     inv_base ns ancestors s \<Longrightarrow> i_d \<in> set ancestors \<Longrightarrow> inv_base ns ancestors s'"
proof (induction ns key ancestors s and ns i_d ancestors vs s arbitrary: s' and s'
        rule: cb_forEach_vertices.induct)
  case (1 ns key ancestors s)
  from "1.prems"(1) show ?case
  proof (cases rule: cb_Inr_cases)
    case (seen n)
    then show ?thesis using "1.prems" by simp
  next
    case member
    then show ?thesis using "1.prems" by simp
  next
    case (body n s2)
    have g: "get ns key = Own n" using body(1) by (simp add: get_Own)
    have nb: "\<not> (visited s key = Some True \<or> inherited key)" using body(2,3) by simp
    have k: "node_id n = key"
      using "1.prems"(2) body(1) by (simp add: wf_nodes_def)
    have "key \<notin> visited_set s" using body(2) by (simp add: visited_set_def)
    then have na: "key \<notin> set ancestors"
      using "1.prems"(3) by (auto simp: inv_base_def)
    have "inv_base ns (ancestors @ [key]) (s\<lparr>visited := (visited s)(key \<mapsto> True)\<rparr>)"
      using "1.prems"(3) body(1,2) by (rule inv_base_enter)
    then have "inv_base ns (ancestors @ [key]) s2"
      using "1.IH" [OF g nb _ "1.prems"(2)] body(4) by (simp add: k)
    then show ?thesis
      unfolding body(5) k using na body(3) by (rule inv_base_exit)
  qed
next
  case (2 ns i_d ancestors s)
  then show ?case by simp
next
  case (3 ns i_d ancestors i rest s)
  from "3.prems"(1) obtain s1 s2 where
    m: "(if i \<in> set ancestors then mark_circular ns i_d i s else Inr s) = Inr s1"
    and c: "cb ns i ancestors s1 = Inr s2"
    and r: "forEach_vertices ns i_d ancestors rest s2 = Inr s'"
    by (rule forEach_Cons_Inr)
  have "inv_base ns ancestors s1"
  proof (cases "i \<in> set ancestors")
    case True
    then show ?thesis
      using m "3.prems"(3,4) by (auto intro: inv_base_mark)
  next
    case False
    then show ?thesis using m "3.prems"(3) by simp
  qed
  then have "inv_base ns ancestors s2"
    using "3.IH"(1) [OF m c "3.prems"(2)] by simp
  then show ?case
    using "3.IH"(2) [OF m c r "3.prems"(2) _ "3.prems"(4)] by simp
qed

section \<open>The keys of a plain object\<close>

lemma mset_filter_partition:
  "mset (filter P xs) + mset (filter (\<lambda>x. \<not> P x) xs) = mset xs"
  by (induction xs) simp_all

lemma mset_object_entries: "mset (object_entries t) = mset t"
  by (simp add: object_entries_def mset_filter_partition)

lemma set_object_entries: "set (object_entries t) = set t"
  using mset_object_entries [of t] by (metis set_mset_mset)

lemma mset_object_keys: "mset (object_keys t) = mset (map fst t)"
  unfolding object_keys_def mset_map by (simp add: mset_object_entries)

lemma set_object_keys: "set (object_keys t) = fst ` set t"
  by (simp add: object_keys_def set_object_entries)

lemma distinct_object_keys: "distinct (map fst t) \<Longrightarrow> distinct (object_keys t)"
  using mset_object_keys [of t] by (metis mset_eq_imp_distinct_iff)

lemma map_fst_insort_key:
  "map fst (insort_key (\<lambda>e. f (fst e)) x xs) = insort_key f (fst x) (map fst xs)"
  by (induction xs) simp_all

lemma map_fst_sort_key:
  "map fst (sort_key (\<lambda>e. f (fst e)) xs) = sort_key f (map fst xs)"
  by (induction xs) (simp_all add: map_fst_insort_key)

text \<open>
  \<^verbatim>\<open>Object.keys\<close> in terms of the keys in the order of their creation: the array indices
  in ascending numeric order, then the other keys as they were created.
\<close>

lemma object_keys_eq:
  "object_keys t = sort_key index_value (filter is_array_index (map fst t))
                   @ filter (\<lambda>k. \<not> is_array_index k) (map fst t)"
  by (simp add: object_keys_def object_entries_def map_fst_sort_key filter_map comp_def)

lemma object_keys_other:
  "filter (\<lambda>k. \<not> is_array_index k) (object_keys t) = filter (\<lambda>k. \<not> is_array_index k) (map fst t)"
proof -
  have "filter (\<lambda>k. \<not> is_array_index k) (sort_key index_value (filter is_array_index (map fst t))) = []"
    by (simp add: filter_empty_conv)
  then show ?thesis
    by (simp add: object_keys_eq)
qed

section \<open>The sort of the circular block\<close>

lemma mset_insert_sorted: "mset (insert_sorted cmp x ys) = add_mset x (mset ys)"
  by (induction ys) simp_all

lemma set_insert_sorted: "set (insert_sorted cmp x ys) = insert x (set ys)"
  by (induction ys) auto

lemma array_sort_snoc: "array_sort cmp (xs @ [x]) = insert_sorted cmp x (array_sort cmp xs)"
  by (simp add: array_sort_def)

lemma mset_array_sort: "mset (array_sort cmp xs) = mset xs"
  by (induction xs rule: rev_induct) (simp_all add: array_sort_snoc mset_insert_sorted array_sort_def)

lemma set_array_sort: "set (array_sort cmp xs) = set xs"
  using mset_array_sort [of cmp xs] by (metis set_mset_mset)

lemma sorted_insert_sorted:
  assumes "\<And>x y. cmp x y < 0 \<longleftrightarrow> f x < (f y :: nat)" "sorted (map f ys)"
  shows "sorted (map f (insert_sorted cmp x ys))"
  using assms(2)
proof (induction ys)
  case Nil
  show ?case by simp
next
  case (Cons y ys)
  show ?case
  proof (cases "f x < f y")
    case True
    then show ?thesis using Cons.prems by (auto simp: assms(1))
  next
    case False
    then show ?thesis
      using Cons by (auto simp: assms(1) set_insert_sorted)
  qed
qed

lemma filter_insert_sorted:
  assumes "\<And>x y. cmp x y < 0 \<longleftrightarrow> f x < (f y :: nat)" "sorted (map f ys)"
  shows "filter (\<lambda>y. f y = d) (insert_sorted cmp x ys)
           = filter (\<lambda>y. f y = d) ys @ (if f x = d then [x] else [])"
  using assms(2)
proof (induction ys)
  case Nil
  show ?case by simp
next
  case (Cons y ys)
  show ?case
  proof (cases "f x < f y")
    case True
    have "f x = d \<Longrightarrow> filter (\<lambda>y. f y = d) (y # ys) = []"
      using True Cons.prems by (auto simp: filter_empty_conv)
    then show ?thesis using True by (simp add: assms(1))
  next
    case False
    then show ?thesis
      using Cons by (simp add: assms(1))
  qed
qed

lemma sorted_array_sort:
  assumes "\<And>x y. cmp x y < 0 \<longleftrightarrow> f x < (f y :: nat)"
  shows "sorted (map f (array_sort cmp xs))"
proof (induction xs rule: rev_induct)
  case Nil
  show ?case by (simp add: array_sort_def)
next
  case (snoc x xs)
  then show ?case
    by (simp add: array_sort_snoc sorted_insert_sorted [where f = f] assms)
qed

lemma filter_array_sort:
  assumes "\<And>x y. cmp x y < 0 \<longleftrightarrow> f x < (f y :: nat)"
  shows "filter (\<lambda>y. f y = d) (array_sort cmp xs) = filter (\<lambda>y. f y = d) xs"
proof (induction xs rule: rev_induct)
  case Nil
  show ?case by (simp add: array_sort_def)
next
  case (snoc x xs)
  have "sorted (map f (array_sort cmp xs))"
    using assms by (rule sorted_array_sort)
  then show ?case
    using snoc by (simp add: array_sort_snoc filter_insert_sorted [where f = f] assms)
qed

lemma comparefn_less: "comparefn a b < 0 \<longleftrightarrow> length (vertices (snd a)) < length (vertices (snd b))"
  by (simp add: comparefn_def)

lemma set_circularSorted: "set (circularSorted c) = fst ` set c"
  by (simp add: circularSorted_def set_array_sort set_object_entries)

lemma mset_circularSorted: "mset (circularSorted c) = mset (map fst c)"
  unfolding circularSorted_def mset_map by (simp add: mset_array_sort mset_object_entries)

lemma distinct_circularSorted: "distinct (map fst c) \<Longrightarrow> distinct (circularSorted c)"
  using mset_circularSorted [of c] by (metis mset_eq_imp_distinct_iff)

text \<open>
  When the length of the adjacency list of every entry is \<open>g\<close> of its key, the keys come
  out in ascending \<open>g\<close>, and keys of equal \<open>g\<close> keep the order of \<^verbatim>\<open>Object.keys\<close>.
\<close>

lemma circularSorted_by_key:
  assumes "\<And>e. e \<in> set c \<Longrightarrow> length (vertices (snd e)) = g (fst e)"
  shows "sorted (map g (circularSorted c))"
    and "filter (\<lambda>k. g k = d) (circularSorted c) = filter (\<lambda>k. g k = d) (object_keys c)"
proof -
  let ?f = "\<lambda>e :: pkg \<times> node. length (vertices (snd e))"
  let ?c = "object_entries c"
  let ?ys = "array_sort comparefn ?c"
  have c: "\<And>e. e \<in> set ?c \<Longrightarrow> ?f e = g (fst e)"
    using assms by (simp add: set_object_entries)
  have same: "\<And>e. e \<in> set ?ys \<Longrightarrow> ?f e = g (fst e)"
    using c by (simp add: set_array_sort)
  have "sorted (map ?f ?ys)"
    by (rule sorted_array_sort) (rule comparefn_less)
  moreover have "map ?f ?ys = map g (map fst ?ys)"
    using same by simp
  ultimately show "sorted (map g (circularSorted c))"
    by (simp add: circularSorted_def)
  have "filter (\<lambda>k. g k = d) (map fst ?ys) = map fst (filter (\<lambda>e. g (fst e) = d) ?ys)"
    by (simp add: filter_map comp_def)
  also have "filter (\<lambda>e. g (fst e) = d) ?ys = filter (\<lambda>e. ?f e = d) ?ys"
    using same by (intro filter_cong) simp_all
  also have "\<dots> = filter (\<lambda>e. ?f e = d) ?c"
    by (rule filter_array_sort) (rule comparefn_less)
  also have "\<dots> = filter (\<lambda>e. g (fst e) = d) ?c"
    using c by (intro filter_cong) simp_all
  also have "map fst \<dots> = filter (\<lambda>k. g k = d) (map fst ?c)"
    by (simp add: filter_map comp_def)
  finally show "filter (\<lambda>k. g k = d) (circularSorted c) = filter (\<lambda>k. g k = d) (object_keys c)"
    by (simp add: circularSorted_def object_keys_def)
qed

lemma circularSorted_other:
  assumes "\<And>e. e \<in> set c \<Longrightarrow> length (vertices (snd e)) = g (fst e)"
  shows "filter (\<lambda>k. g k = d \<and> \<not> is_array_index k) (circularSorted c)
           = filter (\<lambda>k. g k = d \<and> \<not> is_array_index k) (map fst c)"
proof -
  have "filter (\<lambda>k. g k = d \<and> \<not> is_array_index k) (circularSorted c)
          = filter (\<lambda>k. \<not> is_array_index k) (filter (\<lambda>k. g k = d) (circularSorted c))"
    by (simp add: conj_commute)
  also have "\<dots> = filter (\<lambda>k. \<not> is_array_index k) (filter (\<lambda>k. g k = d) (object_keys c))"
    by (simp only: circularSorted_by_key(2) [where g = g, OF assms])
  also have "\<dots> = filter (\<lambda>k. g k = d) (filter (\<lambda>k. \<not> is_array_index k) (object_keys c))"
    by (simp add: conj_commute)
  also have "\<dots> = filter (\<lambda>k. g k = d) (filter (\<lambda>k. \<not> is_array_index k) (map fst c))"
    by (simp only: object_keys_other)
  also have "\<dots> = filter (\<lambda>k. g k = d \<and> \<not> is_array_index k) (map fst c)"
    by (simp add: conj_commute)
  finally show ?thesis .
qed

section \<open>The whole function\<close>

subsection \<open>The outer loop\<close>

lemma inv_init: "inv_base ns [] init_state"
  by (simp add: inv_base_def init_state_def visited_set_def circular_keys_def)

lemma visit_keys_inv:
  assumes "visit_keys ns ks s = Inr s'" "wf_nodes ns" "inv_base ns [] s"
  shows "inv_base ns [] s' \<and> visited_set s \<union> {k \<in> set ks. \<not> inherited k} \<subseteq> visited_set s'"
  using assms
proof (induction ks arbitrary: s)
  case Nil
  then show ?case by simp
next
  case (Cons k ks)
  from Cons.prems(1) obtain s1 where c: "cb ns k [] s = Inr s1"
    and r: "visit_keys ns ks s1 = Inr s'"
    by (auto split: sum.splits)
  have b1: "inv_base ns [] s1"
    by (rule cb_forEach_inv_base(1) [OF c Cons.prems(2,3)])
  have f: "visited_set s \<subseteq> visited_set s1" "k \<in> visited_set s1 \<or> inherited k"
    using cb_forEach_frame(1) [OF c] by simp_all
  have "inv_base ns [] s' \<and> visited_set s1 \<union> {k \<in> set ks. \<not> inherited k} \<subseteq> visited_set s'"
    by (rule Cons.IH [OF r Cons.prems(2) b1])
  then show ?case using f by auto
qed

text \<open>What the traversal of the table of an edge list ends with.\<close>

lemma traversal_result:
  assumes "build_nodes es = Inr ns" "visit_keys ns (object_keys ns) init_state = Inr s"
  shows "distinct (sorted_acc s)" "distinct (map fst (circular s))"
    "set (sorted_acc s) \<inter> circular_keys s = {}"
    "set (sorted_acc s) \<union> circular_keys s = {k \<in> set (flattenedEdges es). \<not> inherited k}"
    "\<And>e. e \<in> set (circular s) \<Longrightarrow> length (vertices (snd e)) = out_degree es (fst e)"
proof -
  have n: "nodes_of ns es" using assms(1) by (rule build_nodes_Inr)
  then have w: "wf_nodes ns" by (rule nodes_of_wf)
  have d: "dom (map_of ns) = {k \<in> set (flattenedEdges es). \<not> inherited k}"
    using n by (simp add: nodes_of_def)
  have i: "inv_base ns [] s"
    "{k \<in> set (object_keys ns). \<not> inherited k} \<subseteq> visited_set s"
    using visit_keys_inv [OF assms(2) w inv_init] by simp_all
  show "distinct (sorted_acc s)" "distinct (map fst (circular s))"
    "set (sorted_acc s) \<inter> circular_keys s = {}"
    using i(1) by (simp_all add: inv_base_def)
  have "dom (map_of ns) \<subseteq> visited_set s"
    using i(2) d by (auto simp: set_object_keys dom_map_of_conv_image_fst)
  then have "visited_set s = dom (map_of ns)"
    using i(1) by (auto simp: inv_base_def)
  moreover have "set (sorted_acc s) \<union> circular_keys s = visited_set s"
    using i(1) by (auto simp: inv_base_def)
  ultimately show "set (sorted_acc s) \<union> circular_keys s
                     = {k \<in> set (flattenedEdges es). \<not> inherited k}"
    by (simp add: d)
  fix e
  assume e: "e \<in> set (circular s)"
  obtain k m where km: "e = (k, m)" by (cases e)
  have "map_of (circular s) k = Some m"
    using e km \<open>distinct (map fst (circular s))\<close> by simp
  then have "map_of ns k = Some m"
    using i(1) by (simp add: inv_base_def)
  then have "vertices m = adj es k"
    using n by (simp add: nodes_of_def)
  then show "length (vertices (snd e)) = out_degree es (fst e)"
    by (simp add: km out_degree_def)
qed

lemma traversal_ok:
  assumes "build_nodes es = Inr ns"
  shows "\<exists>s. visit_keys ns (object_keys ns) init_state = Inr s"
proof -
  have "wf_nodes ns"
    by (rule nodes_of_wf) (rule build_nodes_Inr(1) [OF assms])
  moreover have "set (object_keys ns) \<subseteq> dom (map_of ns) \<union> {i. inherited i}"
    by (simp add: set_object_keys dom_map_of_conv_image_fst)
  ultimately show ?thesis
    by (rule visit_keys_ok)
qed

subsection \<open>Reading the manifests\<close>

lemma edges_of_Inr:
  "edges_of fs dirs dir = Inr es \<Longrightarrow> set es \<subseteq> {(a, b). a = dir \<and> b \<in> set dirs \<and> b \<noteq> dir}"
  by (auto simp: edges_of_def split: manifest.splits if_splits)

lemma read_edges_Inr:
  "read_edges fs dirs ds = (reads, Inr es) \<Longrightarrow>
     reads = ds \<and> set es \<subseteq> {(a, b). a \<in> set ds \<and> b \<in> set dirs \<and> a \<noteq> b}"
proof (induction ds arbitrary: reads es)
  case Nil
  then show ?case by simp
next
  case (Cons dir rest)
  from Cons.prems obtain es1 reads2 es2 where
    e: "edges_of fs dirs dir = Inr es1" and r: "read_edges fs dirs rest = (reads2, Inr es2)"
    and eq: "reads = dir # reads2" "es = es1 @ es2"
    by (auto split: sum.splits prod.splits)
  from Cons.IH [OF r] edges_of_Inr [OF e] show ?case
    by (auto simp: eq)
qed

lemma read_edges_endpoints:
  assumes "read_edges fs dirs dirs = (reads, Inr es)"
  shows "set (flattenedEdges es) \<subseteq> set dirs"
  using read_edges_Inr [OF assms] by (auto simp: set_flattenedEdges)

lemma read_edges_ok:
  "(\<And>d. d \<in> set ds \<Longrightarrow> \<exists>ks. fs d = Deps ks) \<Longrightarrow> \<exists>es. read_edges fs dirs ds = (ds, Inr es)"
proof (induction ds)
  case Nil
  show ?case by simp
next
  case (Cons dir rest)
  from Cons.prems [of dir] obtain ks where "fs dir = Deps ks" by auto
  then obtain es1 where "edges_of fs dirs dir = Inr es1"
    by (simp add: edges_of_def)
  moreover from Cons.IH Cons.prems obtain es2 where "read_edges fs dirs rest = (rest, Inr es2)"
    by auto
  ultimately show ?case by simp
qed

lemma read_edges_singleton:
  assumes "read_edges fs [X] [X] = (reads, Inr es)"
  shows "es = []"
proof -
  have "set es \<subseteq> {(a, b). a \<in> set [X] \<and> b \<in> set [X] \<and> a \<noteq> b}"
    using read_edges_Inr [OF assms] by blast
  then have "\<And>e. e \<in> set es \<Longrightarrow> False" by auto
  then show ?thesis by (cases es) auto
qed

subsection \<open>The result\<close>

lemma sort_blocks_eq:
  assumes "build_nodes es = Inr ns" "visit_keys ns (object_keys ns) init_state = Inr s"
  shows "sort_blocks dirs es = Inr (sorted_acc s, circularSorted (circular s), standAlones dirs es)"
  using assms by (simp add: sort_blocks_def)

lemma topoSort_eq:
  assumes "length dirs \<noteq> 1" "read_edges fs dirs dirs = (reads, Inr es)"
    "build_nodes es = Inr ns" "visit_keys ns (object_keys ns) init_state = Inr s"
  shows "topoSort fs dirs
           = (reads, Inr (sorted_acc s @ circularSorted (circular s) @ standAlones dirs es))"
  using assms by (simp add: topoSort_def sort_blocks_eq)

text \<open>
  Once the edges are derived, \<open>topoSort\<close> throws exactly when an edge starts at an
  inherited name, and what it throws then is the \<^verbatim>\<open>TypeError\<close> of \<^verbatim>\<open>nodes[from].vertices.push\<close>.
\<close>

lemma topoSort_outcome:
  assumes "length dirs \<noteq> 1" "read_edges fs dirs dirs = (reads, Inr es)"
  shows "if \<exists>v \<in> set es. inherited (fst v) then topoSort fs dirs = (reads, Inl TypeError_node)
         else \<exists>ns s. build_nodes es = Inr ns
                \<and> visit_keys ns (object_keys ns) init_state = Inr s
                \<and> topoSort fs dirs
                    = (reads, Inr (sorted_acc s @ circularSorted (circular s) @ standAlones dirs es))"
proof (cases "\<exists>v \<in> set es. inherited (fst v)")
  case True
  then have "build_nodes es = Inl TypeError_node"
    using build_nodes_cases [of es] by (auto split: if_splits)
  then show ?thesis
    using True assms by (simp add: topoSort_def sort_blocks_def)
next
  case False
  then obtain ns where b: "build_nodes es = Inr ns"
    using build_nodes_ok [of es] by blast
  then obtain s where v: "visit_keys ns (object_keys ns) init_state = Inr s"
    using traversal_ok by blast
  from topoSort_eq [OF assms b v] b v False show ?thesis
    by auto
qed

section \<open>The order of the result\<close>

subsection \<open>Mutual dependencies\<close>

lemma wf_nodes_children_inherited:
  assumes "wf_nodes ns" "inherited u"
  shows "children ns u = {}"
proof (cases "map_of ns u")
  case None
  then show ?thesis by (simp add: children_def)
next
  case (Some n)
  then have "\<not> inherited u" using assms(1) by (simp add: wf_nodes_def)
  then show ?thesis using assms(2) by simp
qed

lemma inv_mutual_exit:
  assumes j: "inv_mutual ns (anc @ [key]) s2"
    and w: "wf_nodes ns"
    and vis: "children ns key \<subseteq> visited_set s2 \<union> {i. inherited i}"
    and marks: "\<forall>i \<in> children ns key \<inter> set (anc @ [key]).
                  i \<in> circular_keys s2 \<and> key \<in> circular_keys s2"
    and vs: "visited_set s' = visited_set s2" and cs: "circular_keys s' = circular_keys s2"
  shows "inv_mutual ns anc s'"
  unfolding inv_mutual_def vs cs
proof (intro ballI conjI impI)
  fix v u
  assume v: "v \<in> visited_set s2 - set anc" and u: "u \<in> children ns v"
  show "u \<in> visited_set s2 \<or> inherited u"
  proof (cases "v = key")
    case True
    then show ?thesis using u vis by auto
  next
    case False
    then have "v \<in> visited_set s2 - set (anc @ [key])" using v by simp
    then show ?thesis using j u unfolding inv_mutual_def by blast
  qed
  assume bk: "v \<in> children ns u"
  then have ni: "\<not> inherited u"
    using wf_nodes_children_inherited [OF w] by auto
  have "v \<in> circular_keys s2 \<and> u \<in> circular_keys s2"
  proof (cases "v = key")
    case False
    then have "v \<in> visited_set s2 - set (anc @ [key])" using v by simp
    then show ?thesis using j u bk unfolding inv_mutual_def by blast
  next
    case True
    show ?thesis
    proof (cases "u \<in> set (anc @ [key])")
      case True
      then show ?thesis using marks u \<open>v = key\<close> by blast
    next
      case False
      moreover have "u \<in> visited_set s2" using u vis ni \<open>v = key\<close> by auto
      ultimately have "u \<in> visited_set s2 - set (anc @ [key])" by simp
      then show ?thesis using j u bk unfolding inv_mutual_def by blast
    qed
  qed
  then show "v \<in> circular_keys s2" "u \<in> circular_keys s2" by simp_all
qed

lemma inv_mutual_enter:
  assumes "inv_mutual ns anc s"
  shows "inv_mutual ns (anc @ [key]) (s\<lparr>visited := (visited s)(key \<mapsto> True)\<rparr>)"
  unfolding inv_mutual_def
proof (intro ballI)
  fix v u
  assume "v \<in> visited_set (s\<lparr>visited := (visited s)(key \<mapsto> True)\<rparr>) - set (anc @ [key])"
    and u: "u \<in> children ns v"
  then have "v \<in> visited_set s - set anc" by simp
  with assms u have "(u \<in> visited_set s \<or> inherited u)
        \<and> (v \<in> children ns u \<longrightarrow> v \<in> circular_keys s \<and> u \<in> circular_keys s)"
    unfolding inv_mutual_def by blast
  then show "(u \<in> visited_set (s\<lparr>visited := (visited s)(key \<mapsto> True)\<rparr>) \<or> inherited u)
        \<and> (v \<in> children ns u \<longrightarrow>
            v \<in> circular_keys (s\<lparr>visited := (visited s)(key \<mapsto> True)\<rparr>)
            \<and> u \<in> circular_keys (s\<lparr>visited := (visited s)(key \<mapsto> True)\<rparr>))"
    by auto
qed

lemma inv_mutual_grow:
  assumes "inv_mutual ns anc s" "visited_set s1 = visited_set s"
    "circular_keys s \<subseteq> circular_keys s1"
  shows "inv_mutual ns anc s1"
  unfolding inv_mutual_def assms(2)
proof (intro ballI)
  fix v u
  assume "v \<in> visited_set s - set anc" "u \<in> children ns v"
  with assms(1) have "(u \<in> visited_set s \<or> inherited u)
        \<and> (v \<in> children ns u \<longrightarrow> v \<in> circular_keys s \<and> u \<in> circular_keys s)"
    unfolding inv_mutual_def by blast
  with assms(3) show "(u \<in> visited_set s \<or> inherited u)
        \<and> (v \<in> children ns u \<longrightarrow> v \<in> circular_keys s1 \<and> u \<in> circular_keys s1)"
    by blast
qed

lemma cb_forEach_inv_mutual:
  "cb ns key ancestors s = Inr s' \<Longrightarrow> wf_nodes ns \<Longrightarrow> inv_base ns ancestors s \<Longrightarrow>
     inv_mutual ns ancestors s \<Longrightarrow> inv_mutual ns ancestors s'"
  "forEach_vertices ns i_d ancestors vs s = Inr s' \<Longrightarrow> wf_nodes ns \<Longrightarrow>
     inv_base ns ancestors s \<Longrightarrow> i_d \<in> set ancestors \<Longrightarrow>
     inv_mutual ns ancestors s \<Longrightarrow> inv_mutual ns ancestors s'"
proof (induction ns key ancestors s and ns i_d ancestors vs s arbitrary: s' and s'
        rule: cb_forEach_vertices.induct)
  case (1 ns key ancestors s)
  from "1.prems"(1) show ?case
  proof (cases rule: cb_Inr_cases)
    case (seen n)
    then show ?thesis using "1.prems" by simp
  next
    case member
    then show ?thesis using "1.prems" by simp
  next
    case (body n s2)
    have g: "get ns key = Own n" using body(1) by (simp add: get_Own)
    have nb: "\<not> (visited s key = Some True \<or> inherited key)" using body(2,3) by simp
    have k: "node_id n = key"
      using "1.prems"(2) body(1) by (simp add: wf_nodes_def)
    let ?s0 = "s\<lparr>visited := (visited s)(key \<mapsto> True)\<rparr>"
    have b0: "inv_base ns (ancestors @ [key]) ?s0"
      using "1.prems"(3) body(1,2) by (rule inv_base_enter)
    have j0: "inv_mutual ns (ancestors @ [key]) ?s0"
      using "1.prems"(4) by (rule inv_mutual_enter)
    have mem: "key \<in> set (ancestors @ [key])" by simp
    have j2: "inv_mutual ns (ancestors @ [key]) s2"
      by (rule "1.IH" [OF g nb body(4) "1.prems"(2), unfolded k, OF b0 mem j0])
    have f1: "set (vertices n) \<subseteq> visited_set s2 \<union> {i. inherited i}"
      and f2: "\<forall>i \<in> set (vertices n) \<inter> set (ancestors @ [key]).
           i \<in> circular_keys s2 \<and> (i \<in> children ns key \<longrightarrow> key \<in> circular_keys s2)"
      using cb_forEach_frame(2) [OF body(4), unfolded k] by blast+
    have ch: "children ns key = set (vertices n)"
      using body(1) by (rule children_Some)
    show ?thesis
    proof (rule inv_mutual_exit [OF j2 "1.prems"(2)])
      show "children ns key \<subseteq> visited_set s2 \<union> {i. inherited i}" using f1 by (simp add: ch)
      show "\<forall>i \<in> children ns key \<inter> set (ancestors @ [key]).
              i \<in> circular_keys s2 \<and> key \<in> circular_keys s2"
        using f2 unfolding ch by blast
      show "visited_set s' = visited_set s2" "circular_keys s' = circular_keys s2"
        by (simp_all add: body(5))
    qed
  qed
next
  case (2 ns i_d ancestors s)
  then show ?case by simp
next
  case (3 ns i_d ancestors i rest s)
  from "3.prems"(1) obtain s1 s2 where
    m: "(if i \<in> set ancestors then mark_circular ns i_d i s else Inr s) = Inr s1"
    and c: "cb ns i ancestors s1 = Inr s2"
    and r: "forEach_vertices ns i_d ancestors rest s2 = Inr s'"
    by (rule forEach_Cons_Inr)
  have b1: "inv_base ns ancestors s1"
  proof (cases "i \<in> set ancestors")
    case True
    with m have mm: "mark_circular ns i_d i s = Inr s1" by simp
    show ?thesis
      by (rule inv_base_mark [OF "3.prems"(3) mm "3.prems"(4) True])
  next
    case False
    then show ?thesis using m "3.prems"(3) by simp
  qed
  have j1: "inv_mutual ns ancestors s1"
  proof (cases "i \<in> set ancestors")
    case True
    with m have mm: "mark_circular ns i_d i s = Inr s1" by simp
    have v1: "visited_set s1 = visited_set s"
      by (rule mark_circular_Inr(3) [OF mm])
    have c1: "circular_keys s \<subseteq> circular_keys s1"
      unfolding mark_circular_Inr(4) [OF mm] by blast
    show ?thesis
      by (rule inv_mutual_grow [OF "3.prems"(5) v1 c1])
  next
    case False
    then show ?thesis using m "3.prems"(5) by simp
  qed
  have b2: "inv_base ns ancestors s2"
    using c "3.prems"(2) b1 by (rule cb_forEach_inv_base(1))
  have "inv_mutual ns ancestors s2"
    by (rule "3.IH"(1) [OF m c "3.prems"(2) b1 j1])
  then show ?case
    by (rule "3.IH"(2) [OF m c r "3.prems"(2) b2 "3.prems"(4)])
qed

subsection \<open>The order inside \<open>sorted\<close>\<close>

lemma inv_order_grow:
  assumes "inv_order ns s" "sorted_acc s1 = sorted_acc s" "circular_keys s \<subseteq> circular_keys s1"
  shows "inv_order ns s1"
  unfolding inv_order_def assms(2)
proof (intro allI impI)
  fix l a r
  assume "sorted_acc s = l @ a # r"
  with assms(1) have "children ns a \<subseteq> set l \<union> circular_keys s \<union> {i. inherited i}"
    unfolding inv_order_def by blast
  with assms(3) show "children ns a \<subseteq> set l \<union> circular_keys s1 \<union> {i. inherited i}" by blast
qed

lemma inv_order_push:
  assumes "inv_order ns s2"
    "children ns key \<subseteq> set (sorted_acc s2) \<union> circular_keys s2 \<union> {i. inherited i}"
  shows "inv_order ns (s2\<lparr>sorted_acc := sorted_acc s2 @ [key]\<rparr>)"
  unfolding inv_order_def
proof (intro allI impI)
  fix l a r
  assume "sorted_acc (s2\<lparr>sorted_acc := sorted_acc s2 @ [key]\<rparr>) = l @ a # r"
  then have eq: "sorted_acc s2 @ [key] = l @ a # r" by simp
  have "children ns a \<subseteq> set l \<union> circular_keys s2 \<union> {i. inherited i}"
  proof (cases r rule: rev_cases)
    case Nil
    with eq have "l = sorted_acc s2" "a = key" by simp_all
    then show ?thesis using assms(2) by simp
  next
    case (snoc r' x)
    with eq have "sorted_acc s2 = l @ a # r'" by simp
    then show ?thesis using assms(1) unfolding inv_order_def by blast
  qed
  then show "children ns a
               \<subseteq> set l \<union> circular_keys (s2\<lparr>sorted_acc := sorted_acc s2 @ [key]\<rparr>) \<union> {i. inherited i}"
    by simp
qed

lemma cb_forEach_inv_order:
  "cb ns key ancestors s = Inr s' \<Longrightarrow> wf_nodes ns \<Longrightarrow> inv_base ns ancestors s \<Longrightarrow>
     inv_order ns s \<Longrightarrow> inv_order ns s'"
  "forEach_vertices ns i_d ancestors vs s = Inr s' \<Longrightarrow> wf_nodes ns \<Longrightarrow>
     inv_base ns ancestors s \<Longrightarrow> i_d \<in> set ancestors \<Longrightarrow>
     inv_order ns s \<Longrightarrow> inv_order ns s'"
proof (induction ns key ancestors s and ns i_d ancestors vs s arbitrary: s' and s'
        rule: cb_forEach_vertices.induct)
  case (1 ns key ancestors s)
  from "1.prems"(1) show ?case
  proof (cases rule: cb_Inr_cases)
    case (seen n)
    then show ?thesis using "1.prems" by simp
  next
    case member
    then show ?thesis using "1.prems" by simp
  next
    case (body n s2)
    have g: "get ns key = Own n" using body(1) by (simp add: get_Own)
    have nb: "\<not> (visited s key = Some True \<or> inherited key)" using body(2,3) by simp
    have k: "node_id n = key"
      using "1.prems"(2) body(1) by (simp add: wf_nodes_def)
    let ?s0 = "s\<lparr>visited := (visited s)(key \<mapsto> True)\<rparr>"
    have b0: "inv_base ns (ancestors @ [key]) ?s0"
      using "1.prems"(3) body(1,2) by (rule inv_base_enter)
    have o0: "inv_order ns ?s0"
      by (rule inv_order_grow [OF "1.prems"(4)]) simp_all
    have mem: "key \<in> set (ancestors @ [key])" by simp
    have o2: "inv_order ns s2"
      by (rule "1.IH" [OF g nb body(4) "1.prems"(2), unfolded k, OF b0 mem o0])
    have b2: "inv_base ns (ancestors @ [key]) s2"
      by (rule cb_forEach_inv_base(2) [OF body(4) "1.prems"(2), unfolded k, OF b0 mem])
    have f1: "set (vertices n) \<subseteq> visited_set s2 \<union> {i. inherited i}"
      and f2: "\<forall>i \<in> set (vertices n) \<inter> set (ancestors @ [key]).
           i \<in> circular_keys s2 \<and> (i \<in> children ns key \<longrightarrow> key \<in> circular_keys s2)"
      using cb_forEach_frame(2) [OF body(4), unfolded k] by blast+
    have ch: "children ns key = set (vertices n)"
      using body(1) by (rule children_Some)
    show ?thesis
    proof (cases "map_of (circular s2) key = None")
      case False
      then have "get (circular s2) key \<noteq> Undefined" by (simp add: get_Undefined)
      then show ?thesis using o2 by (auto simp add: body(5) k)
    next
      case True
      then have nc: "key \<notin> circular_keys s2" by (simp add: circular_keys_map_of)
      have u: "get (circular s2) key = Undefined"
        using True body(3) by (simp add: get_Undefined)
      have "visited_set s2 \<subseteq> set (sorted_acc s2) \<union> circular_keys s2 \<union> set (ancestors @ [key])"
        using b2 by (simp add: inv_base_def)
      moreover have "children ns key \<inter> set (ancestors @ [key]) = {}"
        using f2 nc unfolding ch by blast
      ultimately have "children ns key
                         \<subseteq> set (sorted_acc s2) \<union> circular_keys s2 \<union> {i. inherited i}"
        using f1 unfolding ch by blast
      with o2 have "inv_order ns (s2\<lparr>sorted_acc := sorted_acc s2 @ [key]\<rparr>)"
        by (rule inv_order_push)
      then show ?thesis using u by (simp add: body(5) k)
    qed
  qed
next
  case (2 ns i_d ancestors s)
  then show ?case by simp
next
  case (3 ns i_d ancestors i rest s)
  from "3.prems"(1) obtain s1 s2 where
    m: "(if i \<in> set ancestors then mark_circular ns i_d i s else Inr s) = Inr s1"
    and c: "cb ns i ancestors s1 = Inr s2"
    and r: "forEach_vertices ns i_d ancestors rest s2 = Inr s'"
    by (rule forEach_Cons_Inr)
  have b1: "inv_base ns ancestors s1"
  proof (cases "i \<in> set ancestors")
    case True
    with m have mm: "mark_circular ns i_d i s = Inr s1" by simp
    show ?thesis
      by (rule inv_base_mark [OF "3.prems"(3) mm "3.prems"(4) True])
  next
    case False
    then show ?thesis using m "3.prems"(3) by simp
  qed
  have o1: "inv_order ns s1"
  proof (cases "i \<in> set ancestors")
    case True
    with m have mm: "mark_circular ns i_d i s = Inr s1" by simp
    have v1: "sorted_acc s1 = sorted_acc s"
      by (rule mark_circular_Inr(2) [OF mm])
    have c1: "circular_keys s \<subseteq> circular_keys s1"
      unfolding mark_circular_Inr(4) [OF mm] by blast
    show ?thesis
      by (rule inv_order_grow [OF "3.prems"(5) v1 c1])
  next
    case False
    then show ?thesis using m "3.prems"(5) by simp
  qed
  have b2: "inv_base ns ancestors s2"
    using c "3.prems"(2) b1 by (rule cb_forEach_inv_base(1))
  have "inv_order ns s2"
    by (rule "3.IH"(1) [OF m c "3.prems"(2) b1 o1])
  then show ?case
    by (rule "3.IH"(2) [OF m c r "3.prems"(2) b2 "3.prems"(4)])
qed

subsection \<open>Members of \<open>circular\<close> lie on cycles\<close>

lemma inv_cyclic_mark:
  assumes "inv_cyclic ns s" "mark_circular ns i_d i s = Inr s1" "i \<in> set anc"
    "path_to ns anc i_d" "i \<in> children ns i_d"
  shows "inv_cyclic ns s1"
proof -
  have e: "(i_d, i) \<in> edge_rel ns"
    using assms(5) by (simp add: edge_rel_def)
  have p: "(i, i_d) \<in> (edge_rel ns)\<^sup>*"
    using assms(3,4) by (simp add: path_to_def)
  have "(i, i) \<in> (edge_rel ns)\<^sup>+"
    using p e by (rule rtrancl_into_trancl1)
  moreover have "(i_d, i_d) \<in> (edge_rel ns)\<^sup>+"
    using e p by (rule rtrancl_into_trancl2)
  moreover have "circular_keys s1 \<subseteq> circular_keys s \<union> {i, i_d}"
    unfolding mark_circular_Inr(4) [OF assms(2)] by auto
  ultimately show ?thesis
    using assms(1) unfolding inv_cyclic_def by blast
qed

lemma path_to_snoc:
  assumes "path_to ns anc key"
  shows "path_to ns (anc @ [key]) key"
  using assms by (simp add: path_to_def)

lemma path_to_step:
  assumes "path_to ns anc i_d" "i \<in> children ns i_d"
  shows "path_to ns anc i"
  unfolding path_to_def
proof
  fix x
  assume "x \<in> set anc"
  then have "(x, i_d) \<in> (edge_rel ns)\<^sup>*"
    using assms(1) by (simp add: path_to_def)
  moreover have "(i_d, i) \<in> edge_rel ns"
    using assms(2) by (simp add: edge_rel_def)
  ultimately show "(x, i) \<in> (edge_rel ns)\<^sup>*"
    by (rule rtrancl_into_rtrancl)
qed

lemma inv_cyclic_same:
  "inv_cyclic ns s \<Longrightarrow> circular_keys s1 = circular_keys s \<Longrightarrow> inv_cyclic ns s1"
  by (simp add: inv_cyclic_def)

lemma cb_forEach_inv_cyclic:
  "cb ns key ancestors s = Inr s' \<Longrightarrow> wf_nodes ns \<Longrightarrow> path_to ns ancestors key \<Longrightarrow>
     inv_cyclic ns s \<Longrightarrow> inv_cyclic ns s'"
  "forEach_vertices ns i_d ancestors vs s = Inr s' \<Longrightarrow> wf_nodes ns \<Longrightarrow>
     path_to ns ancestors i_d \<Longrightarrow> set vs \<subseteq> children ns i_d \<Longrightarrow>
     inv_cyclic ns s \<Longrightarrow> inv_cyclic ns s'"
proof (induction ns key ancestors s and ns i_d ancestors vs s arbitrary: s' and s'
        rule: cb_forEach_vertices.induct)
  case (1 ns key ancestors s)
  from "1.prems"(1) show ?case
  proof (cases rule: cb_Inr_cases)
    case (seen n)
    then show ?thesis using "1.prems" by simp
  next
    case member
    then show ?thesis using "1.prems" by simp
  next
    case (body n s2)
    have g: "get ns key = Own n" using body(1) by (simp add: get_Own)
    have nb: "\<not> (visited s key = Some True \<or> inherited key)" using body(2,3) by simp
    have k: "node_id n = key"
      using "1.prems"(2) body(1) by (simp add: wf_nodes_def)
    let ?s0 = "s\<lparr>visited := (visited s)(key \<mapsto> True)\<rparr>"
    have p0: "path_to ns (ancestors @ [key]) key"
      using "1.prems"(3) by (rule path_to_snoc)
    have ch: "set (vertices n) \<subseteq> children ns key"
      using body(1) by (simp add: children_Some)
    have c0: "inv_cyclic ns ?s0"
      by (rule inv_cyclic_same [OF "1.prems"(4)]) simp
    have "inv_cyclic ns s2"
      by (rule "1.IH" [OF g nb body(4) "1.prems"(2), unfolded k, OF p0 ch c0])
    then show ?thesis
      by (rule inv_cyclic_same) (simp add: body(5))
  qed
next
  case (2 ns i_d ancestors s)
  then show ?case by simp
next
  case (3 ns i_d ancestors i rest s)
  from "3.prems"(1) obtain s1 s2 where
    m: "(if i \<in> set ancestors then mark_circular ns i_d i s else Inr s) = Inr s1"
    and c: "cb ns i ancestors s1 = Inr s2"
    and r: "forEach_vertices ns i_d ancestors rest s2 = Inr s'"
    by (rule forEach_Cons_Inr)
  have ic: "i \<in> children ns i_d" and rc: "set rest \<subseteq> children ns i_d"
    using "3.prems"(4) by simp_all
  have c1: "inv_cyclic ns s1"
  proof (cases "i \<in> set ancestors")
    case True
    with m have mm: "mark_circular ns i_d i s = Inr s1" by simp
    show ?thesis
      by (rule inv_cyclic_mark [OF "3.prems"(5) mm True "3.prems"(3) ic])
  next
    case False
    then show ?thesis using m "3.prems"(5) by simp
  qed
  have pi: "path_to ns ancestors i"
    using "3.prems"(3) ic by (rule path_to_step)
  have "inv_cyclic ns s2"
    by (rule "3.IH"(1) [OF m c "3.prems"(2) pi c1])
  then show ?case
    by (rule "3.IH"(2) [OF m c r "3.prems"(2,3) rc])
qed

subsection \<open>The graph of the table\<close>

lemma nodes_of_children:
  assumes "nodes_of ns es"
  shows "children ns k = (if inherited k then {} else {b. (k, b) \<in> set es})"
proof (cases "map_of ns k")
  case None
  then have "k \<notin> dom (map_of ns)" by (simp add: domIff)
  then have "inherited k \<or> k \<notin> fst ` set es"
    using assms by (auto simp: nodes_of_def set_flattenedEdges)
  then have "inherited k \<or> {b. (k, b) \<in> set es} = {}"
    by (auto intro: rev_image_eqI)
  then show ?thesis
    by (auto simp: children_def None)
next
  case (Some n)
  then have "vertices n = adj es k" "\<not> inherited k"
    using assms by (auto simp: nodes_of_def dom_def)
  then show ?thesis
    by (simp add: children_def Some set_adj)
qed

lemma nodes_of_edge_rel: "nodes_of ns es \<Longrightarrow> edge_rel ns \<subseteq> set es"
  by (auto simp: edge_rel_def nodes_of_children split: if_splits)

subsection \<open>What the traversal ends with\<close>

lemma inv_init_order:
  "inv_mutual ns [] init_state" "inv_order ns init_state" "inv_cyclic ns init_state"
  by (simp_all add: inv_mutual_def inv_order_def inv_cyclic_def init_state_def
      visited_set_def circular_keys_def)

lemma visit_keys_inv_order:
  assumes "visit_keys ns ks s = Inr s'" "wf_nodes ns"
    "inv_base ns [] s" "inv_mutual ns [] s" "inv_order ns s" "inv_cyclic ns s"
  shows "inv_mutual ns [] s' \<and> inv_order ns s' \<and> inv_cyclic ns s'"
  using assms
proof (induction ks arbitrary: s)
  case Nil
  then show ?case by simp
next
  case (Cons k ks)
  from Cons.prems(1) obtain s1 where c: "cb ns k [] s = Inr s1"
    and r: "visit_keys ns ks s1 = Inr s'"
    by (auto split: sum.splits)
  have p: "path_to ns [] k" by (simp add: path_to_def)
  have b1: "inv_base ns [] s1"
    by (rule cb_forEach_inv_base(1) [OF c Cons.prems(2,3)])
  have m1: "inv_mutual ns [] s1"
    by (rule cb_forEach_inv_mutual(1) [OF c Cons.prems(2,3,4)])
  have o1: "inv_order ns s1"
    by (rule cb_forEach_inv_order(1) [OF c Cons.prems(2,3,5)])
  have c1: "inv_cyclic ns s1"
    by (rule cb_forEach_inv_cyclic(1) [OF c Cons.prems(2) p Cons.prems(6)])
  show ?case
    by (rule Cons.IH [OF r Cons.prems(2) b1 m1 o1 c1])
qed

lemma traversal_order:
  assumes "build_nodes es = Inr ns" "visit_keys ns (object_keys ns) init_state = Inr s"
  shows "inv_mutual ns [] s" "inv_order ns s" "inv_cyclic ns s"
    "visited_set s = {k \<in> set (flattenedEdges es). \<not> inherited k}"
proof -
  have n: "nodes_of ns es" using assms(1) by (rule build_nodes_Inr)
  then have w: "wf_nodes ns" by (rule nodes_of_wf)
  show "inv_mutual ns [] s" "inv_order ns s" "inv_cyclic ns s"
    using visit_keys_inv_order [OF assms(2) w inv_init inv_init_order] by simp_all
  have i: "inv_base ns [] s"
    using visit_keys_inv [OF assms(2) w inv_init] by simp
  have "set (sorted_acc s) \<union> circular_keys s = visited_set s"
    using i by (auto simp: inv_base_def)
  then show "visited_set s = {k \<in> set (flattenedEdges es). \<not> inherited k}"
    using traversal_result(4) [OF assms] by simp
qed

lemma acyclic_no_circular:
  assumes "build_nodes es = Inr ns" "visit_keys ns (object_keys ns) init_state = Inr s"
    and "acyclic (set es)"
  shows "circular s = []"
proof -
  have "edge_rel ns \<subseteq> set es"
    by (rule nodes_of_edge_rel) (rule build_nodes_Inr(1) [OF assms(1)])
  then have "(edge_rel ns)\<^sup>+ \<subseteq> (set es)\<^sup>+"
    by (rule trancl_mono_subset)
  then have "\<forall>x \<in> circular_keys s. (x, x) \<in> (set es)\<^sup>+"
    using traversal_order(3) [OF assms(1,2)] by (auto simp: inv_cyclic_def)
  then have "circular_keys s = {}"
    using assms(3) by (auto simp: acyclic_def)
  then show ?thesis by (simp add: circular_keys_def)
qed

lemma mset_filter_disjoint:
  assumes "\<And>x. x \<in> set xs \<Longrightarrow> \<not> (P x \<and> Q x)"
  shows "mset (filter P xs) + mset (filter Q xs) = mset (filter (\<lambda>x. P x \<or> Q x) xs)"
  using assms by (induction xs) auto

text \<open>
  The result holds every input id once, except the inherited names that are endpoints of
  an edge: these are missing.
\<close>

lemma result_mset:
  assumes "read_edges fs dirs dirs = (reads, Inr es)" and "distinct dirs"
    and "build_nodes es = Inr ns" "visit_keys ns (object_keys ns) init_state = Inr s"
  shows "mset (sorted_acc s @ circularSorted (circular s) @ standAlones dirs es)
           = mset (filter (\<lambda>d. \<not> (inherited d \<and> d \<in> set (flattenedEdges es))) dirs)"
proof -
  let ?E = "set (flattenedEdges es)"
  let ?front = "sorted_acc s @ circularSorted (circular s)"
  note t = traversal_result [OF assms(3,4)]
  have sub: "?E \<subseteq> set dirs"
    using assms(1) by (rule read_edges_endpoints)
  have "distinct ?front"
    using t(1,2,3) by (simp add: distinct_circularSorted set_circularSorted circular_keys_def)
  moreover have "distinct (filter (\<lambda>d. d \<in> ?E \<and> \<not> inherited d) dirs)"
    using assms(2) by simp
  moreover have "set ?front = set (filter (\<lambda>d. d \<in> ?E \<and> \<not> inherited d) dirs)"
    using t(4) sub by (auto simp: set_circularSorted circular_keys_def)
  ultimately have m1: "mset ?front = mset (filter (\<lambda>d. d \<in> ?E \<and> \<not> inherited d) dirs)"
    by (simp only: set_eq_iff_mset_eq_distinct)
  have m2: "mset (standAlones dirs es) = mset (filter (\<lambda>d. d \<notin> ?E) dirs)"
    by (simp add: standAlones_def)
  have "mset (?front @ standAlones dirs es) = mset ?front + mset (standAlones dirs es)"
    by (rule mset_append)
  also have "\<dots> = mset (filter (\<lambda>d. d \<in> ?E \<and> \<not> inherited d) dirs)
                    + mset (filter (\<lambda>d. d \<notin> ?E) dirs)"
    by (simp only: m1 m2)
  also have "\<dots> = mset (filter (\<lambda>d. (d \<in> ?E \<and> \<not> inherited d) \<or> d \<notin> ?E) dirs)"
    by (rule mset_filter_disjoint) simp
  also have "\<dots> = mset (filter (\<lambda>d. \<not> (inherited d \<and> d \<in> ?E)) dirs)"
    by (rule arg_cong [where f = mset], rule filter_cong) auto
  finally show ?thesis by simp
qed

section \<open>Workspaces without inherited names\<close>

text \<open>
  When no directory has a name inherited from \<^verbatim>\<open>Object.prototype\<close>, the tables behave as
  dictionaries. For distinct package ids whose manifests can be read, whatever the
  dependencies (cycles included), \<open>topoSort\<close> then returns a permutation of its input.
\<close>

lemma topoSort_permutation_ordinary:
  assumes "distinct dirs" and "\<forall>d \<in> set dirs. \<exists>ks. fs d = Deps ks"
    and "\<forall>d \<in> set dirs. \<not> inherited d"
  shows "\<exists>reads result. topoSort fs dirs = (reads, Inr result)
           \<and> mset result = mset dirs \<and> distinct result"
proof (cases "length dirs = 1")
  case True
  then have "topoSort fs dirs = ([], Inr dirs)" by (simp add: topoSort_def)
  then show ?thesis using assms(1) by simp
next
  case False
  from assms(2) obtain es where re: "read_edges fs dirs dirs = (dirs, Inr es)"
    using read_edges_ok [of dirs fs dirs] by blast
  have sub: "set (flattenedEdges es) \<subseteq> set dirs"
    using re by (rule read_edges_endpoints)
  then have "\<not> (\<exists>v \<in> set es. inherited (fst v))"
    using assms(3) by (auto simp: set_flattenedEdges)
  with topoSort_outcome [OF False re] obtain ns s where
    b: "build_nodes es = Inr ns"
    and v: "visit_keys ns (object_keys ns) init_state = Inr s"
    and ts: "topoSort fs dirs
               = (dirs, Inr (sorted_acc s @ circularSorted (circular s) @ standAlones dirs es))"
    by auto
  let ?result = "sorted_acc s @ circularSorted (circular s) @ standAlones dirs es"
  have "filter (\<lambda>d. \<not> (inherited d \<and> d \<in> set (flattenedEdges es))) dirs = dirs"
    using assms(3) by (auto simp: filter_id_conv)
  then have m: "mset ?result = mset dirs"
    using result_mset [OF re assms(1) b v] by simp
  then have "distinct ?result"
    using assms(1) by (metis mset_eq_imp_distinct_iff)
  with ts m show ?thesis by blast
qed

text \<open>
  When the derived edges form an acyclic graph and no edge starts at an inherited name,
  then for every edge \<open>(A, B)\<close> (\<open>A\<close> depends on \<open>B\<close>) whose \<open>B\<close> is no inherited name the
  result has \<open>B\<close> before \<open>A\<close>.
\<close>

lemma topoSort_dependency_first_ordinary:
  assumes "read_edges fs dirs dirs = (reads, Inr edges)" and "acyclic (set edges)"
    and "(A, B) \<in> set edges" and "\<forall>v \<in> set edges. \<not> inherited (fst v)" and "\<not> inherited B"
  shows "\<exists>l m r. topoSort fs dirs = (reads, Inr (l @ B # m @ A # r))"
proof -
  have len: "length dirs \<noteq> 1"
  proof
    assume "length dirs = 1"
    then obtain X where "dirs = [X]" by (cases dirs) auto
    then have "edges = []" using assms(1) read_edges_singleton by blast
    then show False using assms(3) by simp
  qed
  from topoSort_outcome [OF len assms(1)] assms(4) obtain ns s where
    b: "build_nodes edges = Inr ns"
    and v: "visit_keys ns (object_keys ns) init_state = Inr s"
    and ts: "topoSort fs dirs
               = (reads, Inr (sorted_acc s @ circularSorted (circular s) @ standAlones dirs edges))"
    by (auto split: if_splits)
  note t = traversal_result [OF b v]
  have c: "circular s = []"
    using b v assms(2) by (rule acyclic_no_circular)
  have na: "\<not> inherited A" using assms(3,4) by auto
  have "A \<in> set (flattenedEdges edges)"
    using assms(3) by (force simp: set_flattenedEdges)
  then have "A \<in> set (sorted_acc s)"
    using t(4) na by (auto simp: c circular_keys_def)
  then obtain l r where lr: "sorted_acc s = l @ A # r"
    by (auto dest: split_list)
  have "children ns A \<subseteq> set l \<union> circular_keys s \<union> {i. inherited i}"
    using traversal_order(2) [OF b v] lr unfolding inv_order_def by blast
  moreover have "B \<in> children ns A"
    using assms(3) na nodes_of_children [OF build_nodes_Inr(1) [OF b]] by simp
  ultimately have "B \<in> set l"
    using assms(5) by (auto simp: c circular_keys_def)
  then obtain l1 l2 where "l = l1 @ B # l2"
    by (auto dest: split_list)
  then have "sorted_acc s @ circularSorted (circular s) @ standAlones dirs edges
               = l1 @ B # l2 @ A # (r @ standAlones dirs edges)"
    using lr by (simp add: c circularSorted_def array_sort_def object_entries_def)
  with ts show ?thesis by auto
qed

text \<open>
  Two packages that depend on each other directly are both placed in \<open>circular\<close>, in every
  graph in which no edge starts at an inherited name: they are in the circular block of
  the result, and neither in the \<open>sorted\<close> prefix nor among the stand-alone packages.
\<close>

lemma topoSort_two_cycle_ordinary:
  assumes "read_edges fs dirs dirs = (reads, Inr edges)"
    and "(A, B) \<in> set edges" and "(B, A) \<in> set edges"
    and "\<forall>v \<in> set edges. \<not> inherited (fst v)"
  shows "\<exists>sorted_ids circ alone.
           sort_blocks dirs edges = Inr (sorted_ids, circ, alone)
           \<and> topoSort fs dirs = (reads, Inr (sorted_ids @ circ @ alone))
           \<and> A \<in> set circ \<and> B \<in> set circ
           \<and> A \<notin> set sorted_ids \<and> B \<notin> set sorted_ids
           \<and> A \<notin> set alone \<and> B \<notin> set alone"
proof -
  have len: "length dirs \<noteq> 1"
  proof
    assume "length dirs = 1"
    then obtain X where "dirs = [X]" by (cases dirs) auto
    then have "edges = []" using assms(1) read_edges_singleton by blast
    then show False using assms(3) by simp
  qed
  from topoSort_outcome [OF len assms(1)] assms(4) obtain ns s where
    b: "build_nodes edges = Inr ns"
    and v: "visit_keys ns (object_keys ns) init_state = Inr s"
    and ts: "topoSort fs dirs
               = (reads, Inr (sorted_acc s @ circularSorted (circular s) @ standAlones dirs edges))"
    by (auto split: if_splits)
  note t = traversal_result [OF b v]
  have ni: "\<not> inherited A" "\<not> inherited B" using assms(2,3,4) by auto
  have ch: "B \<in> children ns A" "A \<in> children ns B"
    using assms(2,3) ni nodes_of_children [OF build_nodes_Inr(1) [OF b]] by simp_all
  have fl: "A \<in> set (flattenedEdges edges)" "B \<in> set (flattenedEdges edges)"
    using assms(2) by (force simp: set_flattenedEdges)+
  have "A \<in> visited_set s - set []"
    using traversal_order(4) [OF b v] fl(1) ni(1) by simp
  then have ab: "A \<in> circular_keys s" "B \<in> circular_keys s"
    using traversal_order(1) [OF b v] ch unfolding inv_mutual_def by blast+
  have "sort_blocks dirs edges
          = Inr (sorted_acc s, circularSorted (circular s), standAlones dirs edges)"
    using b v by (rule sort_blocks_eq)
  moreover note ts
  moreover have "A \<in> set (circularSorted (circular s))" "B \<in> set (circularSorted (circular s))"
    using ab by (simp_all add: set_circularSorted circular_keys_def)
  moreover have "A \<notin> set (sorted_acc s)" "B \<notin> set (sorted_acc s)"
    using ab t(3) by auto
  moreover have "A \<notin> set (standAlones dirs edges)" "B \<notin> set (standAlones dirs edges)"
    using fl by (simp_all add: standAlones_def)
  ultimately show ?thesis by blast
qed

section \<open>Properties of the result\<close>

text \<open>
  C10. Not every lookup in the node table finds a \<^verbatim>\<open>Node\<close>. In the workspace
  \<^verbatim>\<open>['a', 'constructor']\<close> where \<open>a\<close> depends on \<^verbatim>\<open>constructor\<close>, the edge
  \<^verbatim>\<open>['a', 'constructor']\<close> is derived, and \<^verbatim>\<open>!nodes['constructor']\<close> is false on the
  table, which inherits \<^verbatim>\<open>constructor\<close> from \<^verbatim>\<open>Object.prototype\<close>: no \<^verbatim>\<open>Node\<close> is made for
  this endpoint. It is a vertex of \<open>a\<close>, so the loop over the vertices of \<open>a\<close> calls \<open>cb\<close>
  on it; \<^verbatim>\<open>nodes[key]\<close> is then the inherited member, and the call returns without
  recording anything. With the edge the other way round,
  \<^verbatim>\<open>nodes['constructor'].vertices\<close> is \<^verbatim>\<open>undefined\<close> and \<^verbatim>\<open>topoSort\<close> throws a
  \<^verbatim>\<open>TypeError\<close> while it builds the table.
\<close>

theorem cb_on_inherited_member:
  "build_nodes [(''a'', ''constructor'')]
     = Inr [(''a'', \<lparr>node_id = ''a'', vertices = [''constructor'']\<rparr>)]
   \<and> map_of [(''a'', \<lparr>node_id = ''a'', vertices = [''constructor'']\<rparr>)] ''constructor'' = None
   \<and> get [(''a'', \<lparr>node_id = ''a'', vertices = [''constructor'']\<rparr>)] ''constructor'' = Inherited
   \<and> forEach_vertices [(''a'', \<lparr>node_id = ''a'', vertices = [''constructor'']\<rparr>)] ''a'' [''a'']
         [''constructor''] (init_state\<lparr>visited := [''a'' \<mapsto> True]\<rparr>)
       = cb [(''a'', \<lparr>node_id = ''a'', vertices = [''constructor'']\<rparr>)] ''constructor'' [''a'']
           (init_state\<lparr>visited := [''a'' \<mapsto> True]\<rparr>)
   \<and> cb [(''a'', \<lparr>node_id = ''a'', vertices = [''constructor'']\<rparr>)] ''constructor'' [''a'']
         (init_state\<lparr>visited := [''a'' \<mapsto> True]\<rparr>)
       = Inr (init_state\<lparr>visited := [''a'' \<mapsto> True]\<rparr>)
   \<and> build_nodes [(''constructor'', ''a'')] = Inl TypeError_node
   \<and> topoSort fs_constructor_dep [''constructor'', ''a'']
       = ([''constructor'', ''a''], Inl TypeError_node)"
proof -
  let ?ns = "[(''a'', \<lparr>node_id = ''a'', vertices = [''constructor'']\<rparr>)]"
  let ?s = "init_state\<lparr>visited := [''a'' \<mapsto> True]\<rparr>"
  have n: "build_nodes [(''a'', ''constructor'')] = Inr ?ns"
    by code_simp
  have m: "map_of ?ns ''constructor'' = None"
    by simp
  have g: "get ?ns ''constructor'' = Inherited"
    by (simp add: get_def inherited_def)
  have c: "cb ?ns ''constructor'' [''a''] ?s = Inr ?s"
    using g by simp
  have f: "forEach_vertices ?ns ''a'' [''a''] [''constructor''] ?s
             = cb ?ns ''constructor'' [''a''] ?s"
    by (simp add: g)
  have n': "build_nodes [(''constructor'', ''a'')] = Inl TypeError_node"
    by code_simp
  have t: "topoSort fs_constructor_dep [''constructor'', ''a'']
       = ([''constructor'', ''a''], Inl TypeError_node)"
    by code_simp
  from n m g f c n' t show ?thesis by blast
qed

text \<open>
  C7. The traversal terminates on every node table, cyclic or not, and for every key,
  inherited names included: every call of \<open>cb\<close> and of its loop over the vertices is in the
  domain of the recursion. A call on a visited key, or on an inherited name without a
  node, returns at once with the state unchanged; entering the body of a node takes it
  out of the finite set of unvisited keys; a call that returns leaves its key visited
  (unless the key is an inherited name) and never removes a key from the visited ones, so
  no body runs twice. \<open>topoSort\<close> itself is a total function: it ends with a sequence or
  with an exception, and it returns a sequence when every manifest can be read and no
  directory has a name inherited from \<^verbatim>\<open>Object.prototype\<close>.
\<close>

theorem cb_terminates:
  "cb_forEach_vertices_dom (Inl (ns, key, ancestors, s))
   \<and> cb_forEach_vertices_dom (Inr (ns, i_d, ancestors, vs, s))
   \<and> (map_of ns key \<noteq> None \<and> visited s key = Some True \<longrightarrow> cb ns key ancestors s = Inr s)
   \<and> (map_of ns key = None \<and> inherited key \<longrightarrow> cb ns key ancestors s = Inr s)
   \<and> (\<forall>n. map_of ns key = Some n \<and> visited s key \<noteq> Some True \<longrightarrow>
          card (unvisited ns (s\<lparr>visited := (visited s)(key \<mapsto> True)\<rparr>)) < card (unvisited ns s))
   \<and> (\<forall>s'. cb ns key ancestors s = Inr s' \<longrightarrow>
          (visited s' key = Some True \<or> inherited key)
          \<and> (\<forall>k. visited s k = Some True \<longrightarrow> visited s' k = Some True))
   \<and> ((\<forall>d \<in> set dirs. \<exists>ks. fs d = Deps ks) \<and> (\<forall>d \<in> set dirs. \<not> inherited d) \<longrightarrow>
          (\<exists>reads result. topoSort fs dirs = (reads, Inr result)))"
proof -
  have a: "cb_forEach_vertices_dom (Inl (ns, key, ancestors, s))"
    "cb_forEach_vertices_dom (Inr (ns, i_d, ancestors, vs, s))"
    by (rule cb_forEach_dom_total)+
  have b: "map_of ns key \<noteq> None \<and> visited s key = Some True \<longrightarrow> cb ns key ancestors s = Inr s"
    by (auto simp: get_def)
  have b': "map_of ns key = None \<and> inherited key \<longrightarrow> cb ns key ancestors s = Inr s"
    by (auto simp: get_def)
  have c: "\<forall>n. map_of ns key = Some n \<and> visited s key \<noteq> Some True \<longrightarrow>
          card (unvisited ns (s\<lparr>visited := (visited s)(key \<mapsto> True)\<rparr>)) < card (unvisited ns s)"
    using unvisited_mark by blast
  have d: "\<forall>s'. cb ns key ancestors s = Inr s' \<longrightarrow>
          (visited s' key = Some True \<or> inherited key)
          \<and> (\<forall>k. visited s k = Some True \<longrightarrow> visited s' k = Some True)"
  proof (intro allI impI)
    fix s'
    assume "cb ns key ancestors s = Inr s'"
    from cb_forEach_frame(1) [OF this]
    show "(visited s' key = Some True \<or> inherited key)
            \<and> (\<forall>k. visited s k = Some True \<longrightarrow> visited s' k = Some True)"
      by (auto simp: visited_set_def)
  qed
  have e: "(\<forall>d \<in> set dirs. \<exists>ks. fs d = Deps ks) \<and> (\<forall>d \<in> set dirs. \<not> inherited d) \<longrightarrow>
          (\<exists>reads result. topoSort fs dirs = (reads, Inr result))"
  proof
    assume r: "(\<forall>d \<in> set dirs. \<exists>ks. fs d = Deps ks) \<and> (\<forall>d \<in> set dirs. \<not> inherited d)"
    show "\<exists>reads result. topoSort fs dirs = (reads, Inr result)"
    proof (cases "length dirs = 1")
      case True
      then show ?thesis by (simp add: topoSort_def)
    next
      case False
      from r obtain es where re: "read_edges fs dirs dirs = (dirs, Inr es)"
        using read_edges_ok [of dirs fs dirs] by blast
      have "fst ` set es \<subseteq> set dirs"
        using read_edges_endpoints [OF re] by (auto simp: set_flattenedEdges)
      then have "\<not> (\<exists>v \<in> set es. inherited (fst v))"
        using r by auto
      with topoSort_outcome [OF False re] show ?thesis
        by (auto split: if_splits)
    qed
  qed
  from a b b' c d e show ?thesis by blast
qed

text \<open>
  The two-cycle of \<open>fs_pair\<close>: a call on the visited key \<open>a\<close>, a call on the inherited
  name \<^verbatim>\<open>toString\<close>, the body of \<open>b\<close>, and the whole function.
\<close>

theorem cb_terminates_witness:
  "cb_forEach_vertices_dom
     (Inl ([(''a'', \<lparr>node_id = ''a'', vertices = [''b'']\<rparr>),
            (''b'', \<lparr>node_id = ''b'', vertices = [''a'']\<rparr>)],
           ''a'', [], init_state\<lparr>visited := [''a'' \<mapsto> True]\<rparr>))
   \<and> cb [(''a'', \<lparr>node_id = ''a'', vertices = [''b'']\<rparr>),
          (''b'', \<lparr>node_id = ''b'', vertices = [''a'']\<rparr>)] ''a'' []
        (init_state\<lparr>visited := [''a'' \<mapsto> True]\<rparr>)
       = Inr (init_state\<lparr>visited := [''a'' \<mapsto> True]\<rparr>)
   \<and> cb [(''a'', \<lparr>node_id = ''a'', vertices = [''b'']\<rparr>),
          (''b'', \<lparr>node_id = ''b'', vertices = [''a'']\<rparr>)] ''toString'' [] init_state
       = Inr init_state
   \<and> card (unvisited [(''a'', \<lparr>node_id = ''a'', vertices = [''b'']\<rparr>),
                      (''b'', \<lparr>node_id = ''b'', vertices = [''a'']\<rparr>)]
             (init_state\<lparr>visited := (visited init_state)(''b'' \<mapsto> True)\<rparr>))
       < card (unvisited [(''a'', \<lparr>node_id = ''a'', vertices = [''b'']\<rparr>),
                          (''b'', \<lparr>node_id = ''b'', vertices = [''a'']\<rparr>)] init_state)
   \<and> (\<exists>reads result. topoSort fs_pair [''a'', ''b''] = (reads, Inr result))"
proof -
  let ?ns = "[(''a'', \<lparr>node_id = ''a'', vertices = [''b'']\<rparr>),
              (''b'', \<lparr>node_id = ''b'', vertices = [''a'']\<rparr>)]"
  let ?s = "init_state\<lparr>visited := [''a'' \<mapsto> True]\<rparr>"
  have h1: "map_of ?ns ''a'' \<noteq> None \<and> visited ?s ''a'' = Some True"
    by simp
  have h2: "map_of ?ns ''b'' = Some \<lparr>node_id = ''b'', vertices = [''a'']\<rparr>
              \<and> visited init_state ''b'' \<noteq> Some True"
    by (simp add: init_state_def)
  have h3: "(\<forall>d \<in> set [''a'', ''b'']. \<exists>ks. fs_pair d = Deps ks)
              \<and> (\<forall>d \<in> set [''a'', ''b'']. \<not> inherited d)"
    by (simp add: fs_pair_def inherited_def)
  have h4: "map_of ?ns ''toString'' = None \<and> inherited ''toString''"
    by (simp add: inherited_def)
  from cb_terminates [of ?ns "''a''" "[]" ?s "''a''" "[]" "[''a'', ''b'']" fs_pair] h1 h3
  have a: "cb_forEach_vertices_dom (Inl (?ns, ''a'', [], ?s))"
    "cb ?ns ''a'' [] ?s = Inr ?s"
    "\<exists>reads result. topoSort fs_pair [''a'', ''b''] = (reads, Inr result)"
    by blast+
  from cb_terminates [of ?ns "''b''" "[]" init_state "''a''" "[]" "[''a'', ''b'']" fs_pair] h2
  have b: "card (unvisited ?ns (init_state\<lparr>visited := (visited init_state)(''b'' \<mapsto> True)\<rparr>))
       < card (unvisited ?ns init_state)"
    by blast
  from cb_terminates [of ?ns "''toString''" "[]" init_state "''a''" "[]" "[''a'', ''b'']" fs_pair] h4
  have c: "cb ?ns ''toString'' [] init_state = Inr init_state"
    by blast
  from a b c show ?thesis by blast
qed

text \<open>
  C1. The result is not always a permutation of the input. In the workspace
  \<^verbatim>\<open>['a', 'constructor']\<close> where \<open>a\<close> depends on \<^verbatim>\<open>constructor\<close>, the edge
  \<^verbatim>\<open>['a', 'constructor']\<close> is derived, no \<^verbatim>\<open>Node\<close> is made for \<^verbatim>\<open>constructor\<close>
  (\<^verbatim>\<open>!nodes[to]\<close> is false: the table inherits \<^verbatim>\<open>constructor\<close>), the call of \<open>cb\<close> on it
  returns at \<^verbatim>\<open>if (visited[key])\<close>, and as an endpoint of an edge it is no stand-alone
  package either. \<open>topoSort\<close> returns \<^verbatim>\<open>['a']\<close>: the input id \<^verbatim>\<open>constructor\<close> is missing.
\<close>

theorem topoSort_drops_inherited_name:
  "read_edges fs_dep_constructor [''a'', ''constructor''] [''a'', ''constructor'']
     = ([''a'', ''constructor''], Inr [(''a'', ''constructor'')])
   \<and> build_nodes [(''a'', ''constructor'')]
       = Inr [(''a'', \<lparr>node_id = ''a'', vertices = [''constructor'']\<rparr>)]
   \<and> sort_blocks [''a'', ''constructor''] [(''a'', ''constructor'')] = Inr ([''a''], [], [])
   \<and> topoSort fs_dep_constructor [''a'', ''constructor'']
       = ([''a'', ''constructor''], Inr [''a''])
   \<and> mset [''a''] \<noteq> mset [''a'', ''constructor'']"
proof -
  have e: "read_edges fs_dep_constructor [''a'', ''constructor''] [''a'', ''constructor'']
     = ([''a'', ''constructor''], Inr [(''a'', ''constructor'')])"
    by code_simp
  have n: "build_nodes [(''a'', ''constructor'')]
       = Inr [(''a'', \<lparr>node_id = ''a'', vertices = [''constructor'']\<rparr>)]"
    by code_simp
  have b: "sort_blocks [''a'', ''constructor''] [(''a'', ''constructor'')] = Inr ([''a''], [], [])"
    by code_simp
  have t: "topoSort fs_dep_constructor [''a'', ''constructor'']
       = ([''a'', ''constructor''], Inr [''a''])"
    by code_simp
  have m: "mset [''a''] \<noteq> mset [''a'', ''constructor'']"
    by simp
  from e n b t m show ?thesis by blast
qed

text \<open>
  C2. In the same workspace the graph is acyclic and has the one edge \<open>a\<close> depends on
  \<^verbatim>\<open>constructor\<close>, but the result \<^verbatim>\<open>['a']\<close> does not hold \<^verbatim>\<open>constructor\<close> at all, so it
  is not before \<open>a\<close>. In the acyclic workspace \<^verbatim>\<open>['constructor', 'a']\<close> where
  \<^verbatim>\<open>constructor\<close> depends on \<open>a\<close>, there is no result: \<open>topoSort\<close> throws a \<^verbatim>\<open>TypeError\<close>.
\<close>

theorem dependency_absent_from_result:
  "read_edges fs_dep_constructor [''a'', ''constructor''] [''a'', ''constructor'']
     = ([''a'', ''constructor''], Inr [(''a'', ''constructor'')])
   \<and> acyclic (set [(''a'', ''constructor'')])
   \<and> snd (topoSort fs_dep_constructor [''a'', ''constructor'']) = Inr [''a'']
   \<and> ''constructor'' \<notin> set [''a'']
   \<and> read_edges fs_constructor_dep [''constructor'', ''a''] [''constructor'', ''a'']
       = ([''constructor'', ''a''], Inr [(''constructor'', ''a'')])
   \<and> acyclic (set [(''constructor'', ''a'')])
   \<and> snd (topoSort fs_constructor_dep [''constructor'', ''a'']) = Inl TypeError_node"
proof -
  have e: "read_edges fs_dep_constructor [''a'', ''constructor''] [''a'', ''constructor'']
     = ([''a'', ''constructor''], Inr [(''a'', ''constructor'')])"
    by code_simp
  have a: "acyclic (set [(''a'', ''constructor'')])"
    by (simp add: acyclic_insert) (simp add: acyclic_def)
  have t: "snd (topoSort fs_dep_constructor [''a'', ''constructor'']) = Inr [''a'']"
    by code_simp
  have m: "''constructor'' \<notin> set [''a'']"
    by simp
  have e': "read_edges fs_constructor_dep [''constructor'', ''a''] [''constructor'', ''a'']
       = ([''constructor'', ''a''], Inr [(''constructor'', ''a'')])"
    by code_simp
  have a': "acyclic (set [(''constructor'', ''a'')])"
    by (simp add: acyclic_insert) (simp add: acyclic_def)
  have t': "snd (topoSort fs_constructor_dep [''constructor'', ''a'']) = Inl TypeError_node"
    by code_simp
  from e a t m e' a' t' show ?thesis by blast
qed

text \<open>
  C3. Not every package on a cycle is placed in \<open>circular\<close>: in the three-cycle
  \<open>a \<rightarrow> b \<rightarrow> c \<rightarrow> a\<close> the traversal finds the closing edge at \<open>c\<close>, places \<open>c\<close> and \<open>a\<close> in
  \<open>circular\<close>, and appends \<open>b\<close>, which lies on the cycle, to \<open>sorted\<close>: \<open>b\<close> is the first
  element of the result, before the circular block.
\<close>

theorem cycle_member_in_sorted_prefix:
  "read_edges fs_cycle3 [''a'', ''b'', ''c''] [''a'', ''b'', ''c'']
     = ([''a'', ''b'', ''c''], Inr [(''a'', ''b''), (''b'', ''c''), (''c'', ''a'')])
   \<and> (''b'', ''b'') \<in> (set [(''a'', ''b''), (''b'', ''c''), (''c'', ''a'')])\<^sup>+
   \<and> sort_blocks [''a'', ''b'', ''c''] [(''a'', ''b''), (''b'', ''c''), (''c'', ''a'')]
       = Inr ([''b''], [''c'', ''a''], [])
   \<and> topoSort fs_cycle3 [''a'', ''b'', ''c'']
       = ([''a'', ''b'', ''c''], Inr [''b'', ''c'', ''a''])"
proof -
  let ?R = "set [(''a'', ''b''), (''b'', ''c''), (''c'', ''a'')]"
  have "(''b'', ''c'') \<in> ?R" "(''c'', ''a'') \<in> ?R" "(''a'', ''b'') \<in> ?R"
    by simp_all
  then have c: "(''b'', ''b'') \<in> ?R\<^sup>+"
    by (meson trancl.r_into_trancl trancl.trancl_into_trancl)
  have e: "read_edges fs_cycle3 [''a'', ''b'', ''c''] [''a'', ''b'', ''c'']
     = ([''a'', ''b'', ''c''], Inr [(''a'', ''b''), (''b'', ''c''), (''c'', ''a'')])"
    by code_simp
  have b: "sort_blocks [''a'', ''b'', ''c''] [(''a'', ''b''), (''b'', ''c''), (''c'', ''a'')]
       = Inr ([''b''], [''c'', ''a''], [])"
    by code_simp
  have t: "topoSort fs_cycle3 [''a'', ''b'', ''c'']
       = ([''a'', ''b'', ''c''], Inr [''b'', ''c'', ''a''])"
    by code_simp
  from e c b t show ?thesis by blast
qed

text \<open>
  C4, as it is written, fails: members of \<open>circular\<close> with the same number of outgoing
  edges do not always keep the order in which they were added. In the workspace
  \<^verbatim>\<open>['2', 'b', '1', 'a']\<close> with the two-cycles \<^verbatim>\<open>2\<close>, \<open>b\<close> and \<^verbatim>\<open>1\<close>, \<open>a\<close>, the members are
  added in the order \<open>a\<close>, \<^verbatim>\<open>1\<close>, \<open>b\<close>, \<^verbatim>\<open>2\<close>, each has one outgoing edge, and the
  circular block is \<^verbatim>\<open>['1', '2', 'a', 'b']\<close>: \<^verbatim>\<open>Object.keys(circular)\<close> lists the array
  indices first. In the workspace \<^verbatim>\<open>['1', '2']\<close> with the two-cycle \<^verbatim>\<open>1\<close>, \<^verbatim>\<open>2\<close>, the
  members are added in the order \<^verbatim>\<open>2\<close>, \<^verbatim>\<open>1\<close>, and the block is \<^verbatim>\<open>['1', '2']\<close>: the array
  indices are listed in numeric order.
\<close>

theorem circular_ties_counterexample:
  "read_edges fs_numbered [''2'', ''b'', ''1'', ''a''] [''2'', ''b'', ''1'', ''a'']
     = ([''2'', ''b'', ''1'', ''a''],
        Inr [(''2'', ''b''), (''b'', ''2''), (''1'', ''a''), (''a'', ''1'')])
   \<and> build_nodes [(''2'', ''b''), (''b'', ''2''), (''1'', ''a''), (''a'', ''1'')]
       = Inr [(''2'', \<lparr>node_id = ''2'', vertices = [''b'']\<rparr>),
              (''b'', \<lparr>node_id = ''b'', vertices = [''2'']\<rparr>),
              (''1'', \<lparr>node_id = ''1'', vertices = [''a'']\<rparr>),
              (''a'', \<lparr>node_id = ''a'', vertices = [''1'']\<rparr>)]
   \<and> object_keys [(''2'', \<lparr>node_id = ''2'', vertices = [''b'']\<rparr>),
                   (''b'', \<lparr>node_id = ''b'', vertices = [''2'']\<rparr>),
                   (''1'', \<lparr>node_id = ''1'', vertices = [''a'']\<rparr>),
                   (''a'', \<lparr>node_id = ''a'', vertices = [''1'']\<rparr>)]
       = [''1'', ''2'', ''b'', ''a'']
   \<and> map_sum id circular
        (visit_keys
           [(''2'', \<lparr>node_id = ''2'', vertices = [''b'']\<rparr>),
            (''b'', \<lparr>node_id = ''b'', vertices = [''2'']\<rparr>),
            (''1'', \<lparr>node_id = ''1'', vertices = [''a'']\<rparr>),
            (''a'', \<lparr>node_id = ''a'', vertices = [''1'']\<rparr>)]
           [''1'', ''2'', ''b'', ''a''] init_state)
       = Inr [(''a'', \<lparr>node_id = ''a'', vertices = [''1'']\<rparr>),
              (''1'', \<lparr>node_id = ''1'', vertices = [''a'']\<rparr>),
              (''b'', \<lparr>node_id = ''b'', vertices = [''2'']\<rparr>),
              (''2'', \<lparr>node_id = ''2'', vertices = [''b'']\<rparr>)]
   \<and> map (out_degree [(''2'', ''b''), (''b'', ''2''), (''1'', ''a''), (''a'', ''1'')])
        [''a'', ''1'', ''b'', ''2''] = [1, 1, 1, 1]
   \<and> sort_blocks [''2'', ''b'', ''1'', ''a'']
        [(''2'', ''b''), (''b'', ''2''), (''1'', ''a''), (''a'', ''1'')]
       = Inr ([], [''1'', ''2'', ''a'', ''b''], [])
   \<and> topoSort fs_numbered [''2'', ''b'', ''1'', ''a'']
       = ([''2'', ''b'', ''1'', ''a''], Inr [''1'', ''2'', ''a'', ''b''])
   \<and> read_edges fs_index_pair [''1'', ''2''] [''1'', ''2'']
       = ([''1'', ''2''], Inr [(''1'', ''2''), (''2'', ''1'')])
   \<and> build_nodes [(''1'', ''2''), (''2'', ''1'')]
       = Inr [(''1'', \<lparr>node_id = ''1'', vertices = [''2'']\<rparr>),
              (''2'', \<lparr>node_id = ''2'', vertices = [''1'']\<rparr>)]
   \<and> map_sum id circular
        (visit_keys
           [(''1'', \<lparr>node_id = ''1'', vertices = [''2'']\<rparr>),
            (''2'', \<lparr>node_id = ''2'', vertices = [''1'']\<rparr>)]
           [''1'', ''2''] init_state)
       = Inr [(''2'', \<lparr>node_id = ''2'', vertices = [''1'']\<rparr>),
              (''1'', \<lparr>node_id = ''1'', vertices = [''2'']\<rparr>)]
   \<and> sort_blocks [''1'', ''2''] [(''1'', ''2''), (''2'', ''1'')] = Inr ([], [''1'', ''2''], [])
   \<and> topoSort fs_index_pair [''1'', ''2''] = ([''1'', ''2''], Inr [''1'', ''2''])"
proof -
  let ?es = "[(''2'', ''b''), (''b'', ''2''), (''1'', ''a''), (''a'', ''1'')]"
  let ?ns = "[(''2'', \<lparr>node_id = ''2'', vertices = [''b'']\<rparr>),
              (''b'', \<lparr>node_id = ''b'', vertices = [''2'']\<rparr>),
              (''1'', \<lparr>node_id = ''1'', vertices = [''a'']\<rparr>),
              (''a'', \<lparr>node_id = ''a'', vertices = [''1'']\<rparr>)]"
  let ?ns' = "[(''1'', \<lparr>node_id = ''1'', vertices = [''2'']\<rparr>),
               (''2'', \<lparr>node_id = ''2'', vertices = [''1'']\<rparr>)]"
  have e: "read_edges fs_numbered [''2'', ''b'', ''1'', ''a''] [''2'', ''b'', ''1'', ''a'']
     = ([''2'', ''b'', ''1'', ''a''], Inr ?es)"
    by code_simp
  have n: "build_nodes ?es = Inr ?ns"
    by code_simp
  have k: "object_keys ?ns = [''1'', ''2'', ''b'', ''a'']"
    by code_simp
  have c: "map_sum id circular (visit_keys ?ns [''1'', ''2'', ''b'', ''a''] init_state)
       = Inr [(''a'', \<lparr>node_id = ''a'', vertices = [''1'']\<rparr>),
              (''1'', \<lparr>node_id = ''1'', vertices = [''a'']\<rparr>),
              (''b'', \<lparr>node_id = ''b'', vertices = [''2'']\<rparr>),
              (''2'', \<lparr>node_id = ''2'', vertices = [''b'']\<rparr>)]"
    by code_simp
  have d: "map (out_degree ?es) [''a'', ''1'', ''b'', ''2''] = [1, 1, 1, 1]"
    by code_simp
  have b: "sort_blocks [''2'', ''b'', ''1'', ''a''] ?es = Inr ([], [''1'', ''2'', ''a'', ''b''], [])"
    by code_simp
  have t: "topoSort fs_numbered [''2'', ''b'', ''1'', ''a'']
       = ([''2'', ''b'', ''1'', ''a''], Inr [''1'', ''2'', ''a'', ''b''])"
    by code_simp
  have e': "read_edges fs_index_pair [''1'', ''2''] [''1'', ''2'']
       = ([''1'', ''2''], Inr [(''1'', ''2''), (''2'', ''1'')])"
    by code_simp
  have n': "build_nodes [(''1'', ''2''), (''2'', ''1'')] = Inr ?ns'"
    by code_simp
  have c': "map_sum id circular (visit_keys ?ns' [''1'', ''2''] init_state)
       = Inr [(''2'', \<lparr>node_id = ''2'', vertices = [''1'']\<rparr>),
              (''1'', \<lparr>node_id = ''1'', vertices = [''2'']\<rparr>)]"
    by code_simp
  have b': "sort_blocks [''1'', ''2''] [(''1'', ''2''), (''2'', ''1'')] = Inr ([], [''1'', ''2''], [])"
    by code_simp
  have t': "topoSort fs_index_pair [''1'', ''2''] = ([''1'', ''2''], Inr [''1'', ''2''])"
    by code_simp
  show ?thesis
    by (intro conjI) (rule e n k c d b t e' n' c' b' t')+
qed

text \<open>
  C4, amended. Whenever the edges are derived and none starts at an inherited name (so
  that \<open>topoSort\<close> returns), the circular block is sorted by the number of outgoing edges,
  ascending; members with the same number of outgoing edges keep the order of
  \<^verbatim>\<open>Object.keys(circular)\<close>, which lists the members whose id is an array index first, in
  ascending numeric order, and then the other members in the order in which they were
  added to \<open>circular\<close>. So members with the same number of outgoing edges whose ids are not
  array indices keep the order in which they were added. No member is lost or repeated.
\<close>

theorem circular_block_order:
  assumes "length dirs \<noteq> 1" and "read_edges fs dirs dirs = (reads, Inr edges)"
    and "\<forall>v \<in> set edges. \<not> inherited (fst v)"
  shows "\<exists>ns s. build_nodes edges = Inr ns
           \<and> visit_keys ns (object_keys ns) init_state = Inr s
           \<and> topoSort fs dirs
               = (reads, Inr (sorted_acc s @ circularSorted (circular s) @ standAlones dirs edges))
           \<and> sorted (map (out_degree edges) (circularSorted (circular s)))
           \<and> (\<forall>d. filter (\<lambda>k. out_degree edges k = d) (circularSorted (circular s))
                   = filter (\<lambda>k. out_degree edges k = d) (object_keys (circular s)))
           \<and> object_keys (circular s)
               = sort_key index_value (filter is_array_index (map fst (circular s)))
                 @ filter (\<lambda>k. \<not> is_array_index k) (map fst (circular s))
           \<and> (\<forall>d. filter (\<lambda>k. out_degree edges k = d \<and> \<not> is_array_index k)
                     (circularSorted (circular s))
                   = filter (\<lambda>k. out_degree edges k = d \<and> \<not> is_array_index k)
                       (map fst (circular s)))
           \<and> mset (circularSorted (circular s)) = mset (map fst (circular s))"
proof -
  from assms(3) obtain ns where b: "build_nodes edges = Inr ns"
    using build_nodes_ok [of edges] by blast
  then obtain s where v: "visit_keys ns (object_keys ns) init_state = Inr s"
    using traversal_ok by blast
  note deg = traversal_result(5) [OF b v]
  note k = circularSorted_by_key [where g = "out_degree edges" and c = "circular s", OF deg]
  note o = circularSorted_other [where g = "out_degree edges" and c = "circular s", OF deg]
  have "topoSort fs dirs
          = (reads, Inr (sorted_acc s @ circularSorted (circular s) @ standAlones dirs edges))"
    using assms(1,2) b v by (rule topoSort_eq)
  moreover have "object_keys (circular s)
               = sort_key index_value (filter is_array_index (map fst (circular s)))
                 @ filter (\<lambda>k. \<not> is_array_index k) (map fst (circular s))"
    by (rule object_keys_eq)
  moreover have "mset (circularSorted (circular s)) = mset (map fst (circular s))"
    by (rule mset_circularSorted)
  ultimately show ?thesis
    using b v k o by blast
qed

text \<open>The workspace of the two numbered two-cycles.\<close>

theorem circular_block_order_witness:
  "\<exists>ns s. build_nodes [(''2'', ''b''), (''b'', ''2''), (''1'', ''a''), (''a'', ''1'')] = Inr ns
      \<and> visit_keys ns (object_keys ns) init_state = Inr s
      \<and> topoSort fs_numbered [''2'', ''b'', ''1'', ''a'']
          = ([''2'', ''b'', ''1'', ''a''],
             Inr (sorted_acc s @ circularSorted (circular s)
                  @ standAlones [''2'', ''b'', ''1'', ''a'']
                      [(''2'', ''b''), (''b'', ''2''), (''1'', ''a''), (''a'', ''1'')]))
      \<and> map fst (circular s) = [''a'', ''1'', ''b'', ''2'']
      \<and> object_keys (circular s) = [''1'', ''2'', ''a'', ''b'']
      \<and> circularSorted (circular s) = [''1'', ''2'', ''a'', ''b'']
      \<and> sorted (map (out_degree [(''2'', ''b''), (''b'', ''2''), (''1'', ''a''), (''a'', ''1'')])
                  (circularSorted (circular s)))
      \<and> filter (\<lambda>k. out_degree [(''2'', ''b''), (''b'', ''2''), (''1'', ''a''), (''a'', ''1'')] k = 1
                     \<and> \<not> is_array_index k) (circularSorted (circular s)) = [''a'', ''b'']"
proof -
  let ?es = "[(''2'', ''b''), (''b'', ''2''), (''1'', ''a''), (''a'', ''1'')]"
  let ?dirs = "[''2'', ''b'', ''1'', ''a'']"
  let ?ns = "[(''2'', \<lparr>node_id = ''2'', vertices = [''b'']\<rparr>),
              (''b'', \<lparr>node_id = ''b'', vertices = [''2'']\<rparr>),
              (''1'', \<lparr>node_id = ''1'', vertices = [''a'']\<rparr>),
              (''a'', \<lparr>node_id = ''a'', vertices = [''1'']\<rparr>)]"
  have l: "length ?dirs \<noteq> 1" by simp
  have e: "read_edges fs_numbered ?dirs ?dirs = (?dirs, Inr ?es)"
    by code_simp
  have i: "\<forall>v \<in> set ?es. \<not> inherited (fst v)"
    by (simp add: inherited_def)
  from circular_block_order [OF l e i] obtain ns s where
    b: "build_nodes ?es = Inr ns"
    and v: "visit_keys ns (object_keys ns) init_state = Inr s"
    and t: "topoSort fs_numbered ?dirs
              = (?dirs, Inr (sorted_acc s @ circularSorted (circular s) @ standAlones ?dirs ?es))"
    and o: "sorted (map (out_degree ?es) (circularSorted (circular s)))"
    and f: "\<And>d. filter (\<lambda>k. out_degree ?es k = d \<and> \<not> is_array_index k)
                     (circularSorted (circular s))
                   = filter (\<lambda>k. out_degree ?es k = d \<and> \<not> is_array_index k)
                       (map fst (circular s))"
    by blast
  have "build_nodes ?es = Inr ?ns"
    by code_simp
  then have ns: "ns = ?ns" using b by simp
  have k: "object_keys ?ns = [''1'', ''2'', ''b'', ''a'']"
    by code_simp
  have "map_sum id circular (visit_keys ?ns [''1'', ''2'', ''b'', ''a''] init_state)
       = Inr [(''a'', \<lparr>node_id = ''a'', vertices = [''1'']\<rparr>),
              (''1'', \<lparr>node_id = ''1'', vertices = [''a'']\<rparr>),
              (''b'', \<lparr>node_id = ''b'', vertices = [''2'']\<rparr>),
              (''2'', \<lparr>node_id = ''2'', vertices = [''b'']\<rparr>)]"
    by code_simp
  then have c: "circular s = [(''a'', \<lparr>node_id = ''a'', vertices = [''1'']\<rparr>),
              (''1'', \<lparr>node_id = ''1'', vertices = [''a'']\<rparr>),
              (''b'', \<lparr>node_id = ''b'', vertices = [''2'']\<rparr>),
              (''2'', \<lparr>node_id = ''2'', vertices = [''b'']\<rparr>)]"
    using v unfolding ns k by simp
  have c1: "map fst (circular s) = [''a'', ''1'', ''b'', ''2'']"
    unfolding c by simp
  have c2: "object_keys (circular s) = [''1'', ''2'', ''a'', ''b'']"
    unfolding c by code_simp
  have c3: "circularSorted (circular s) = [''1'', ''2'', ''a'', ''b'']"
    unfolding c by code_simp
  have c4: "filter (\<lambda>k. out_degree ?es k = 1 \<and> \<not> is_array_index k) (circularSorted (circular s))
              = [''a'', ''b'']"
    unfolding f c1 by code_simp
  show ?thesis
    by (intro exI [of _ ns] exI [of _ s] conjI) (rule b v t o c1 c2 c3 c4)+
qed



end
